theory Spec2Isabelle
  imports Complex_Main "HOL-Library.AList"
begin

section \<open>FluidC+ community detection: the data model\<close>

text \<open>
  The development follows \<^verbatim>\<open>src/fluidc_plus.py\<close> and \<^verbatim>\<open>src/utils.py\<close>.

  \<^item> Vertices are the non-negative integers networkx hands out
    (\<^verbatim>\<open>convert_node_labels_to_integers\<close>), community labels are Python integers
    (the engine uses \<^verbatim>\<open>-1\<close> as its "no label chosen" sentinel).
  \<^item> A Python \<^verbatim>\<open>dict\<close> whose iteration order is observed (the labelling
    \<^verbatim>\<open>communities\<close>, the vote \<^verbatim>\<open>Counter\<close>, the seed sets, the graph) is an
    association list with distinct keys kept in insertion order: \<^const>\<open>map_of\<close> reads a
    key and \<^const>\<open>AList.update\<close> stores one (in place when the key exists, at the end
    otherwise, as Python does).  The two bookkeeping dictionaries \<^verbatim>\<open>density\<close> and
    \<^verbatim>\<open>com_to_numvertices\<close> are only ever read by key, so they are maps.
  \<^item> Python floats are modelled by the real numbers: densities and votes are computed
    without rounding.  The model and the source agree wherever no comparison is decided by
    rounding; they can differ in the candidate list of line 84 when two votes are
    \<open>0.0001\<close> apart up to rounding, and in the tie-break of line 101 for counts from
    \<open>2 ^ 53\<close> on, where float quotients coincide.
  \<^item> Every exception the source can raise is a value of \<open>py_error\<close>; a function that can
    raise returns \<open>py_error + 'a\<close>.
\<close>

type_synonym vertex = nat
type_synonym com = int

datatype py_error = KeyError | ZeroDivisionError | IndexError

text \<open>A networkx graph: each node with its neighbours, in the order \<^verbatim>\<open>G[v]\<close> iterates.\<close>

type_synonym graph = "(vertex \<times> vertex list) list"

record bookkeeping =
  density :: "com \<rightharpoonup> real"
  com_to_numvertices :: "com \<rightharpoonup> int"

record engine_state = bookkeeping +
  communities :: "(vertex \<times> com) list"

section \<open>The propagation engine (\<^verbatim>\<open>fluidc_modified\<close>)\<close>

text \<open>
  \<^verbatim>\<open>Counter.update({c: w})\<close>: the weight is added to the count the key already has
  (\<^verbatim>\<open>0\<close> when it has none); a new key goes to the end.
\<close>

definition counter_update :: "(com \<times> real) list \<Rightarrow> com \<Rightarrow> real \<Rightarrow> (com \<times> real) list" where
  "counter_update cnt c w =
     AList.update c (w + (case map_of cnt c of None \<Rightarrow> 0 | Some x \<Rightarrow> x)) cnt"

text \<open>
  Lines 70-73 and 76-79: the vote of one vertex \<open>u\<close> (the vertex itself or a neighbour).
  Both lookups sit in a \<^verbatim>\<open>try\<close> whose \<^verbatim>\<open>KeyError\<close> handler skips the vote.
\<close>

definition add_vote :: "engine_state \<Rightarrow> (com \<times> real) list \<Rightarrow> vertex \<Rightarrow> (com \<times> real) list" where
  "add_vote st cnt u =
     (case map_of (communities st) u of
        None \<Rightarrow> cnt
      | Some c \<Rightarrow> (case density st c of
                    None \<Rightarrow> cnt
                  | Some d \<Rightarrow> counter_update cnt c d))"

definition com_counter :: "engine_state \<Rightarrow> vertex \<Rightarrow> vertex list \<Rightarrow> (com \<times> real) list" where
  "com_counter st v nbrs = fold (\<lambda>u cnt. add_vote st cnt u) nbrs (add_vote st [] v)"

text \<open>\<^verbatim>\<open>max(com_counter.values())\<close>, called on a non-empty counter only.\<close>

fun max_list :: "real list \<Rightarrow> real" where
  "max_list [] = 0"
| "max_list (x # xs) = fold max xs x"

text \<open>Lines 84-85: the communities whose vote is within \<^verbatim>\<open>0.0001\<close> of the maximum.\<close>

definition best_communities :: "(com \<times> real) list \<Rightarrow> com list" where
  "best_communities cnt =
     (let max_freq = max_list (map snd cnt)
      in map fst (filter (\<lambda>(c, freq). max_freq - freq < 1 / 10000) cnt))"

text \<open>\<^verbatim>\<open>np.argmin\<close>: the index of the first occurrence of the minimum.\<close>

fun argmin :: "real list \<Rightarrow> nat" where
  "argmin [] = 0"
| "argmin [x] = 0"
| "argmin (x # y # ys) = (let i = argmin (y # ys) in if x \<le> (y # ys) ! i then 0 else Suc i)"

text \<open>
  Line 101: the list comprehension \<^verbatim>\<open>[max_density / com_to_numvertices[b] for b in
  best_communities]\<close>, left to right; a missing key and a zero count raise.
\<close>

fun com_densities :: "real \<Rightarrow> (com \<rightharpoonup> int) \<Rightarrow> com list \<Rightarrow> py_error + real list" where
  "com_densities md cnt [] = Inr []"
| "com_densities md cnt (b # bs) =
     (case cnt b of
        None \<Rightarrow> Inl KeyError
      | Some n \<Rightarrow>
          if n = 0 then Inl ZeroDivisionError
          else (case com_densities md cnt bs of
                  Inl e \<Rightarrow> Inl e
                | Inr ds \<Rightarrow> Inr (md / real_of_int n # ds)))"

text \<open>
  Lines 81-104: the label the vertex ends the step with, and whether it is a change.
  \<open>Inr (c, False)\<close>: the current label \<open>c\<close> is among the best and is preserved
  (\<^verbatim>\<open>new_com\<close> is no longer \<^verbatim>\<open>-1\<close>); \<open>Inr (c, True)\<close>: the branch of line 93 ran and
  chose \<open>c\<close>.  The counter is non-empty here.
\<close>

definition choose_com ::
  "real \<Rightarrow> engine_state \<Rightarrow> vertex \<Rightarrow> (com \<times> real) list \<Rightarrow> py_error + (com \<times> bool)" where
  "choose_com md st v cnt =
     (let best = best_communities cnt;
          new_com = (case map_of (communities st) v of
                       None \<Rightarrow> - 1
                     | Some c \<Rightarrow> if c \<in> set best then c else - 1)
      in if new_com = - 1 then
           (if length best > 1 then
              (case com_densities md (com_to_numvertices st) best of
                 Inl e \<Rightarrow> Inl e
               | Inr ds \<Rightarrow> Inr (best ! argmin ds, True))
            else (case best of
                    [] \<Rightarrow> Inl IndexError
                  | b # _ \<Rightarrow> Inr (b, True)))
         else Inr (new_com, False))"

text \<open>
  Lines 106-111, the departure update.  The \<^verbatim>\<open>try\<close> catches \<^verbatim>\<open>KeyError\<close> only (an
  unlabelled vertex, or a label without a count): the division of line 109 by a count that
  has just become \<^verbatim>\<open>0\<close> raises \<^verbatim>\<open>ZeroDivisionError\<close> out of the engine.
\<close>

definition depart :: "real \<Rightarrow> vertex \<Rightarrow> engine_state \<Rightarrow> py_error + engine_state" where
  "depart md v st =
     (case map_of (communities st) v of
        None \<Rightarrow> Inr st
      | Some c \<Rightarrow>
          (case com_to_numvertices st c of
             None \<Rightarrow> Inr st
           | Some n \<Rightarrow>
               if n - 1 = 0 then Inl ZeroDivisionError
               else Inr (st\<lparr>com_to_numvertices := (com_to_numvertices st)(c \<mapsto> n - 1),
                            density := (density st)(c \<mapsto> md / real_of_int (n - 1))\<rparr>)))"

text \<open>Lines 113-115, the arrival update; nothing here is caught.\<close>

definition arrive :: "real \<Rightarrow> vertex \<Rightarrow> com \<Rightarrow> engine_state \<Rightarrow> py_error + engine_state" where
  "arrive md v new_com st =
     (case com_to_numvertices st new_com of
        None \<Rightarrow> Inl KeyError
      | Some n \<Rightarrow>
          if n + 1 = 0 then Inl ZeroDivisionError
          else Inr (st\<lparr>communities := AList.update v new_com (communities st),
                       com_to_numvertices := (com_to_numvertices st)(new_com \<mapsto> n + 1),
                       density := (density st)(new_com \<mapsto> md / real_of_int (n + 1))\<rparr>))"

definition relabel :: "real \<Rightarrow> vertex \<Rightarrow> com \<Rightarrow> engine_state \<Rightarrow> py_error + engine_state" where
  "relabel md v new_com st =
     (case depart md v st of
        Inl e \<Rightarrow> Inl e
      | Inr st' \<Rightarrow> arrive md v new_com st')"

text \<open>
  Lines 66-115, the body of the \<^verbatim>\<open>for vertex in vertices\<close> loop.  The state carries the
  flag \<^verbatim>\<open>cont\<close>.  \<^verbatim>\<open>G[vertex]\<close> raises \<^verbatim>\<open>KeyError\<close> for a vertex that is not a node.
\<close>

definition update_vertex ::
  "graph \<Rightarrow> real \<Rightarrow> engine_state \<times> bool \<Rightarrow> vertex \<Rightarrow> py_error + engine_state \<times> bool" where
  "update_vertex G md sc v =
     (case map_of G v of
        None \<Rightarrow> Inl KeyError
      | Some nbrs \<Rightarrow>
          (let cnt = com_counter (fst sc) v nbrs
           in if cnt = [] then Inr sc
              else (case choose_com md (fst sc) v cnt of
                      Inl e \<Rightarrow> Inl e
                    | Inr (new_com, changed) \<Rightarrow>
                        if changed then
                          (case relabel md v new_com (fst sc) of
                             Inl e \<Rightarrow> Inl e
                           | Inr st' \<Rightarrow> Inr (st', True))
                        else Inr sc)))"

text \<open>One pass: the \<^verbatim>\<open>for\<close> loop over the visit order, stopped by the first exception.\<close>

fun run_pass ::
  "graph \<Rightarrow> real \<Rightarrow> vertex list \<Rightarrow> engine_state \<times> bool \<Rightarrow> py_error + engine_state \<times> bool" where
  "run_pass G md [] sc = Inr sc"
| "run_pass G md (v # vs) sc =
     (case update_vertex G md sc v of
        Inl e \<Rightarrow> Inl e
      | Inr sc' \<Rightarrow> run_pass G md vs sc')"

text \<open>
  Lines 57-119, the \<^verbatim>\<open>while cont\<close> loop.  \<open>iter_count\<close> is the number of passes already
  made; the result is the final state together with the number of passes executed.
\<close>

function engine_loop ::
  "graph \<Rightarrow> vertex list \<Rightarrow> real \<Rightarrow> int \<Rightarrow> engine_state \<Rightarrow> int \<Rightarrow> py_error + engine_state \<times> int" where
  "engine_loop G vertices md max_iter st iter_count =
     (case run_pass G md vertices (st, False) of
        Inl e \<Rightarrow> Inl e
      | Inr (st', cont) \<Rightarrow>
          if iter_count + 1 > max_iter then Inr (st', iter_count + 1)
          else if cont then engine_loop G vertices md max_iter st' (iter_count + 1)
          else Inr (st', iter_count + 1))"
  by pat_completeness auto
termination
  by (relation "measure (\<lambda>(G, vertices, md, max_iter, st, iter_count). nat (max_iter - iter_count))")
     auto

text \<open>\<^verbatim>\<open>_invert_dict\<close> of \<^verbatim>\<open>utils.py\<close>: the keys of each value, grouped in insertion order.\<close>

definition invert_dict :: "('a \<times> 'b) list \<Rightarrow> ('b \<times> 'a list) list" where
  "invert_dict orig_dict =
     fold (\<lambda>(v, k) return_dict.
             case map_of return_dict k of
               Some vs \<Rightarrow> AList.update k (vs @ [v]) return_dict
             | None \<Rightarrow> AList.update k [v] return_dict)
          orig_dict []"

text \<open>
  \<^verbatim>\<open>fluidc_modified\<close>: the groups it returns, and the bookkeeping it leaves mutated for
  its caller.
\<close>

definition fluidc_modified ::
  "graph \<Rightarrow> vertex list \<Rightarrow> engine_state \<Rightarrow> real \<Rightarrow> int \<Rightarrow> py_error + vertex list list \<times> engine_state" where
  "fluidc_modified G vertices st md max_iter =
     (case engine_loop G vertices md max_iter st 0 of
        Inl e \<Rightarrow> Inl e
      | Inr (st', n) \<Rightarrow> Inr (map snd (invert_dict (communities st')), st'))"

section \<open>The restart controller (\<^verbatim>\<open>fluidc_plus\<close>)\<close>

text \<open>
  What the controller takes from outside is a parameter of the model:
  \<^item> \<open>shuffled\<close>, the node list after \<^verbatim>\<open>random.shuffle\<close>;
  \<^item> \<open>rnd\<close>, the random source of \<^verbatim>\<open>random.choice\<close>: the \<open>n\<close>-th call on a list \<open>xs\<close>
    returns \<open>xs ! (rnd n mod length xs)\<close>, so every element can be drawn;
  \<^item> \<open>nmi\<close>, the scorer of scikit-learn, a pure function of the two label lists.  It
    receives the variable \<^verbatim>\<open>old_communities\<close> as it is, which is \<^verbatim>\<open>None\<close> only before
    the first restart has completed, when the scorer is not called.
  The number of communities \<open>k\<close> is a natural number.
\<close>

type_synonym scorer = "int list \<Rightarrow> int list option \<Rightarrow> real"

record ctrl_state = bookkeeping +
  seed_set :: "(vertex \<times> com) list"
  bad_seed_set :: "(vertex \<times> com) list"
  seed_init_num :: int
  iter :: int
  old_communities :: "int list option"
  new_communities :: "vertex list list option"
  nmi_list :: "real list"
  min_NMI :: real
  draws :: nat

text \<open>Line 136.\<close>

definition max_density :: real where
  "max_density = 1"

text \<open>The dictionary union \<^verbatim>\<open>a | b\<close>: the items of \<open>b\<close> are stored into \<open>a\<close> one by one.\<close>

definition dict_merge :: "('k \<times> 'v) list \<Rightarrow> ('k \<times> 'v) list \<Rightarrow> ('k \<times> 'v) list" where
  "dict_merge a b = fold (\<lambda>(k, v). AList.update k v) b a"

text \<open>
  Lines 146-147: \<^verbatim>\<open>G.degree\<close> counts a self-loop twice; \<^verbatim>\<open>sorted\<close> is stable, also with
  \<^verbatim>\<open>reverse=True\<close>.
\<close>

definition degree :: "graph \<Rightarrow> (vertex \<times> nat) list" where
  "degree G = map (\<lambda>(n, nbrs). (n, length nbrs + (if n \<in> set nbrs then 1 else 0))) G"

definition sorted_vertices :: "graph \<Rightarrow> vertex list" where
  "sorted_vertices G = map fst (sort_key (\<lambda>x. - int (snd x)) (degree G))"

text \<open>Lines 140-155: the state before the first restart.\<close>

definition fluidc_init :: "vertex list \<Rightarrow> nat \<Rightarrow> ctrl_state" where
  "fluidc_init shuffled k =
     (let seeds = dict_merge [] (zip (take k shuffled) (map int [0..<k]))
      in \<lparr>density = Map.empty, com_to_numvertices = Map.empty,
          seed_set = seeds, bad_seed_set = dict_merge [] seeds,
          seed_init_num = 0, iter = 0,
          old_communities = None, new_communities = None,
          nmi_list = [], min_NMI = 1, draws = 0\<rparr>)"

text \<open>Lines 160-162: every seeded community gets count 1 and density \<^verbatim>\<open>max_density\<close>.\<close>

definition init_seeds :: "ctrl_state \<Rightarrow> ctrl_state" where
  "init_seeds st =
     fold (\<lambda>(v, c) s. s\<lparr>com_to_numvertices := (com_to_numvertices s)(c \<mapsto> 1),
                        density := (density s)(c \<mapsto> max_density)\<rparr>)
          (seed_set st) st"

text \<open>
  \<^verbatim>\<open>nodes_color\<close> of \<^verbatim>\<open>utils.py\<close>: one colour per node, \<^verbatim>\<open>0\<close> for a node in no group.
  The store \<^verbatim>\<open>color_list[j] = color\<close> raises \<^verbatim>\<open>IndexError\<close> past the end of the list.
\<close>

definition set_color :: "int \<Rightarrow> vertex \<Rightarrow> py_error + int list \<Rightarrow> py_error + int list" where
  "set_color color j acc =
     (case acc of
        Inl e \<Rightarrow> Inl e
      | Inr color_list \<Rightarrow>
          if j < length color_list then Inr (color_list[j := color]) else Inl IndexError)"

definition nodes_color :: "graph \<Rightarrow> vertex list list \<Rightarrow> py_error + int list" where
  "nodes_color in_graph comms =
     fold (\<lambda>(color, node_idxs) acc. fold (set_color (int color)) node_idxs acc)
          (enumerate 0 comms) (Inr (replicate (length in_graph) 0))"

text \<open>
  Lines 171-177, the gate on the score.  \<open>new_list\<close> is \<^verbatim>\<open>new_communities_list\<close>.
\<close>

definition score_restart :: "scorer \<Rightarrow> int list \<Rightarrow> ctrl_state \<Rightarrow> ctrl_state" where
  "score_restart nmi new_list st =
     (if iter st \<noteq> 0 then
        (let NMI = nmi new_list (old_communities st);
             st1 = st\<lparr>nmi_list := nmi_list st @ [NMI]\<rparr>
         in if nmi new_list (old_communities st) < min_NMI st1 then
              st1\<lparr>bad_seed_set := dict_merge (bad_seed_set st1) (seed_set st1),
                  seed_init_num := seed_init_num st1 + 1,
                  min_NMI := NMI\<rparr>
            else st1)
      else st)"

text \<open>
  Lines 186-199, the loop that draws the next seed set.  The arguments are the groups, the
  history, and the loop's variables \<^verbatim>\<open>seed_set\<close>, \<^verbatim>\<open>community_idx\<close>,
  \<^verbatim>\<open>removed_list\<close> and the number of draws made.  The result is the seed set, whether the
  loop left by the \<^verbatim>\<open>break\<close> of line 192, and the number of draws.  Python iterates the
  set difference of line 189 in an order of its own; \<open>rnd\<close> ranges over every choice.
\<close>

definition candidates :: "vertex list \<Rightarrow> vertex list \<Rightarrow> vertex list" where
  "candidates current_community removed_list =
     filter (\<lambda>x. x \<notin> set removed_list) (remdups current_community)"

definition choice :: "(nat \<Rightarrow> nat) \<Rightarrow> nat \<Rightarrow> 'a list \<Rightarrow> 'a" where
  "choice rnd n xs = xs ! (rnd n mod length xs)"

lemma choice_mem: "xs \<noteq> [] \<Longrightarrow> choice rnd n xs \<in> set xs"
  by (simp add: choice_def)

lemma card_candidates_less:
  assumes "x \<in> set (candidates cur removed)"
  shows "card (set (candidates cur (removed @ [x]))) < card (set (candidates cur removed))"
proof -
  have "set (candidates cur (removed @ [x])) = set (candidates cur removed) - {x}"
    by (auto simp: candidates_def)
  moreover have "card (set (candidates cur removed) - {x}) < card (set (candidates cur removed))"
    using assms by (intro card_Diff1_less) simp_all
  ultimately show ?thesis by simp
qed

function draw_seeds ::
  "(nat \<Rightarrow> nat) \<Rightarrow> (vertex \<times> com) list \<Rightarrow> vertex list list \<Rightarrow>
   (vertex \<times> com) list \<Rightarrow> nat \<Rightarrow> vertex list \<Rightarrow> nat \<Rightarrow> (vertex \<times> com) list \<times> bool \<times> nat" where
  "draw_seeds rnd bad comms seeds community_idx removed_list n =
     (if community_idx < length comms then
        (let current_community = candidates (comms ! community_idx) removed_list
         in if current_community = [] then (seeds, True, n)
            else (let new_v = choice rnd n current_community
                  in if new_v \<in> set (map fst bad) then
                       draw_seeds rnd bad comms seeds community_idx (removed_list @ [new_v]) (Suc n)
                     else
                       draw_seeds rnd bad comms (AList.update new_v (int community_idx) seeds)
                         (Suc community_idx) [] (Suc n)))
      else (seeds, False, n))"
  by pat_completeness auto
termination
  by (relation "measures
        [\<lambda>(rnd, bad, comms, seeds, community_idx, removed_list, n). length comms - community_idx,
         \<lambda>(rnd, bad, comms, seeds, community_idx, removed_list, n).
            card (set (candidates (comms ! community_idx) removed_list))]")
     (auto simp: choice_mem card_candidates_less)

text \<open>Lines 183-199: the new seed set replaces the old one; exhaustion forces the count to 10.\<close>

definition new_seed_set :: "(nat \<Rightarrow> nat) \<Rightarrow> vertex list list \<Rightarrow> ctrl_state \<Rightarrow> ctrl_state" where
  "new_seed_set rnd comms st =
     (case draw_seeds rnd (bad_seed_set st) comms [] 0 [] (draws st) of
        (seeds, exhausted, n) \<Rightarrow>
          st\<lparr>seed_set := seeds,
             seed_init_num := (if exhausted then 10 else seed_init_num st),
             draws := n\<rparr>)"

text \<open>
  Lines 169-201, the rest of a restart once the engine has returned the groups \<open>comms\<close>
  and left the bookkeeping of \<open>est\<close>, and \<^verbatim>\<open>nodes_color\<close> has returned \<open>new_list\<close>.
\<close>

definition after_engine ::
  "(nat \<Rightarrow> nat) \<Rightarrow> scorer \<Rightarrow> vertex list list \<Rightarrow> engine_state \<Rightarrow> int list \<Rightarrow>
   ctrl_state \<Rightarrow> ctrl_state" where
  "after_engine rnd nmi comms est new_list st1 =
     (let st2 = st1\<lparr>density := density est,
                    com_to_numvertices := com_to_numvertices est,
                    new_communities := Some comms\<rparr>;
          st3 = score_restart nmi new_list st2;
          st4 = st3\<lparr>old_communities := Some new_list\<rparr>;
          st5 = new_seed_set rnd comms st4
      in st5\<lparr>iter := iter st5 + 1\<rparr>)"

text \<open>
  Lines 159-201, the body of the restart loop.  The engine works on a deep copy of the
  seed set and on the controller's own bookkeeping dictionaries.
\<close>

definition engine_input :: "ctrl_state \<Rightarrow> engine_state" where
  "engine_input st1 =
     \<lparr>density = density st1, com_to_numvertices = com_to_numvertices st1,
      communities = seed_set st1\<rparr>"

definition restart ::
  "graph \<Rightarrow> int \<Rightarrow> (nat \<Rightarrow> nat) \<Rightarrow> scorer \<Rightarrow> ctrl_state \<Rightarrow> py_error + ctrl_state" where
  "restart G max_iter rnd nmi st =
     (let st1 = init_seeds st
      in case fluidc_modified G (sorted_vertices G) (engine_input st1) max_density max_iter of
           Inl e \<Rightarrow> Inl e
         | Inr (comms, est) \<Rightarrow>
             (case nodes_color G comms of
                Inl e \<Rightarrow> Inl e
              | Inr new_list \<Rightarrow> Inr (after_engine rnd nmi comms est new_list st1)))"

lemma iter_init_seeds: "iter (init_seeds st) = iter st"
proof -
  have "\<And>s. iter (fold (\<lambda>(v, c) s. s\<lparr>com_to_numvertices := (com_to_numvertices s)(c \<mapsto> 1),
                        density := (density s)(c \<mapsto> max_density)\<rparr>) xs s) = iter s" for xs
    by (induction xs) (auto split: prod.splits)
  then show ?thesis by (simp add: init_seeds_def)
qed

lemma iter_score_restart: "iter (score_restart nmi new_list st) = iter st"
  by (simp add: score_restart_def Let_def)

lemma iter_new_seed_set: "iter (new_seed_set rnd comms st) = iter st"
  by (simp add: new_seed_set_def split: prod.splits)

lemma iter_after_engine: "iter (after_engine rnd nmi comms est new_list st1) = iter st1 + 1"
  by (simp add: after_engine_def Let_def iter_new_seed_set iter_score_restart)

lemma restart_Inr:
  assumes "restart G max_iter rnd nmi st = Inr st'"
  shows "\<exists>comms est new_list.
           fluidc_modified G (sorted_vertices G) (engine_input (init_seeds st)) max_density max_iter
             = Inr (comms, est)
           \<and> nodes_color G comms = Inr new_list
           \<and> st' = after_engine rnd nmi comms est new_list (init_seeds st)"
  using assms unfolding restart_def Let_def
  by (auto split: sum.splits prod.splits)

lemma iter_restart: "restart G max_iter rnd nmi st = Inr st' \<Longrightarrow> iter st' = iter st + 1"
  by (auto dest!: restart_Inr simp: iter_after_engine iter_init_seeds)

text \<open>Lines 157-203: the restart loop, and \<^verbatim>\<open>fluidc_plus\<close>, which returns \<^verbatim>\<open>new_communities\<close>.\<close>

function fluidc_plus_loop ::
  "graph \<Rightarrow> int \<Rightarrow> (nat \<Rightarrow> nat) \<Rightarrow> scorer \<Rightarrow> ctrl_state \<Rightarrow> py_error + ctrl_state" where
  "fluidc_plus_loop G max_iter rnd nmi st =
     (if seed_init_num st < 10 \<and> iter st < max_iter then
        (case restart G max_iter rnd nmi st of
           Inl e \<Rightarrow> Inl e
         | Inr st' \<Rightarrow> fluidc_plus_loop G max_iter rnd nmi st')
      else Inr st)"
  by pat_completeness auto
termination
  by (relation "measure (\<lambda>(G, max_iter, rnd, nmi, st). nat (max_iter - iter st))")
     (auto dest: iter_restart)

definition fluidc_plus ::
  "graph \<Rightarrow> nat \<Rightarrow> int \<Rightarrow> vertex list \<Rightarrow> (nat \<Rightarrow> nat) \<Rightarrow> scorer \<Rightarrow>
   py_error + vertex list list option" where
  "fluidc_plus G k max_iter shuffled rnd nmi =
     (case fluidc_plus_loop G max_iter rnd nmi (fluidc_init shuffled k) of
        Inl e \<Rightarrow> Inl e
      | Inr st \<Rightarrow> Inr (new_communities st))"

text \<open>
  The points of a run: \<open>reached G max_iter rnd nmi st st'\<close> holds when the restart loop,
  started at its head in state \<open>st\<close>, is at its head again in state \<open>st'\<close> after zero or
  more full restarts.
\<close>

inductive reached ::
  "graph \<Rightarrow> int \<Rightarrow> (nat \<Rightarrow> nat) \<Rightarrow> scorer \<Rightarrow> ctrl_state \<Rightarrow> ctrl_state \<Rightarrow> bool"
  for G max_iter rnd nmi where
  reached_refl: "reached G max_iter rnd nmi st st"
| reached_step:
    "reached G max_iter rnd nmi st st' \<Longrightarrow> seed_init_num st' < 10 \<Longrightarrow> iter st' < max_iter \<Longrightarrow>
     restart G max_iter rnd nmi st' = Inr st'' \<Longrightarrow> reached G max_iter rnd nmi st st''"

declare engine_loop.simps [simp del]
declare draw_seeds.simps [simp del]
declare fluidc_plus_loop.simps [simp del]

text \<open>
  The bookkeeping is consistent when every community with a positive count has the density
  \<^verbatim>\<open>max_density / count\<close>.
\<close>

definition consistent :: "real \<Rightarrow> 'a bookkeeping_scheme \<Rightarrow> bool" where
  "consistent md b \<longleftrightarrow>
     (\<forall>c n. com_to_numvertices b c = Some n \<and> 0 < n \<longrightarrow> density b c = Some (md / real_of_int n))"

text \<open>
  \<open>first_seen xs\<close> holds the elements of \<open>xs\<close> once each, in the order of their first
  occurrence; \<open>members_of d l\<close> holds the keys of the dictionary \<open>d\<close> whose value is \<open>l\<close>, in
  the order of \<open>d\<close>.
\<close>

definition first_seen :: "'a list \<Rightarrow> 'a list" where
  "first_seen xs = rev (remdups (rev xs))"

definition members_of :: "('a \<times> 'b) list \<Rightarrow> 'b \<Rightarrow> 'a list" where
  "members_of d l = map fst (filter (\<lambda>p. snd p = l) d)"

text \<open>
  The invariants behind the bookkeeping of a restart.  \<open>booked D st\<close>: the engine's
  dictionaries have the keys \<open>D\<close>, every label in use is one of them, and every count is
  positive and equal to the number of vertices that carry the label.  \<open>seeded K st\<close>: at the
  head of the restart loop the seed set gives the ids \<open>0, \<dots>, K - 1\<close> to distinct vertices,
  and the dictionaries hold no other key.
\<close>

definition booked :: "com set \<Rightarrow> engine_state \<Rightarrow> bool" where
  "booked D st \<longleftrightarrow>
     distinct (map fst (communities st))
   \<and> snd ` set (communities st) \<subseteq> D
   \<and> dom (com_to_numvertices st) = D
   \<and> dom (density st) = D
   \<and> (\<forall>c n. com_to_numvertices st c = Some n \<longrightarrow>
          1 \<le> n \<and> n = int (length (members_of (communities st) c)))"


definition seeded :: "nat \<Rightarrow> ctrl_state \<Rightarrow> bool" where
  "seeded K st \<longleftrightarrow>
     map snd (seed_set st) = map int [0..<K]
   \<and> distinct (map fst (seed_set st))
   \<and> dom (com_to_numvertices st) \<subseteq> int ` {0..<K}
   \<and> dom (density st) \<subseteq> int ` {0..<K}"

section \<open>Concrete inputs\<close>

text \<open>Two vertices joined by an edge; vertex \<open>0\<close> seeds community \<open>0\<close>.\<close>

definition edge_graph :: graph where
  "edge_graph = [(0, [1]), (1, [0])]"

definition one_seed :: engine_state where
  "one_seed = \<lparr>density = [0 \<mapsto> 1], com_to_numvertices = [0 \<mapsto> 1], communities = [(0, 0)]\<rparr>"

text \<open>
  A star with centre \<open>0\<close>.  The centre is alone in community \<open>0\<close>, both leaves carry label
  \<open>1\<close>, and the bookkeeping holds one member for each community.
\<close>

definition star_graph :: graph where
  "star_graph = [(0, [1, 2]), (1, [0]), (2, [0])]"

definition lone_centre :: engine_state where
  "lone_centre = \<lparr>density = [0 \<mapsto> 1, 1 \<mapsto> 1], com_to_numvertices = [0 \<mapsto> 1, 1 \<mapsto> 1],
                   communities = [(0, 0), (1, 1), (2, 1)]\<rparr>"

text \<open>The same labels with three members booked for community \<open>0\<close>.\<close>

definition booked_centre :: engine_state where
  "booked_centre = \<lparr>density = [0 \<mapsto> 1 / 3, 1 \<mapsto> 1], com_to_numvertices = [0 \<mapsto> 3, 1 \<mapsto> 1],
                     communities = [(0, 0), (1, 1), (2, 1)]\<rparr>"

text \<open>
  The ring \<open>0 - 1 - 2 - 3 - 0\<close>.  The shuffle \<open>[0, 2, 1, 3]\<close> with \<open>k = 2\<close> seeds
  \<open>{0: 0, 2: 1}\<close>; the scorer always returns \<open>0\<close>; every draw takes the first candidate.
\<close>

definition ring_graph :: graph where
  "ring_graph = [(0, [1, 3]), (1, [0, 2]), (2, [1, 3]), (3, [2, 0])]"

definition zero_scorer :: scorer where
  "zero_scorer new_list old = 0"

definition first_choice :: "nat \<Rightarrow> nat" where
  "first_choice n = 0"

text \<open>
  The ring of six vertices.  The shuffle \<open>[0, 3, 1, 2, 4, 5]\<close> with \<open>k = 2\<close> seeds
  \<open>{0: 0, 3: 1}\<close>; every draw takes the second candidate.  \<open>ring6_first\<close> and
  \<open>ring6_second\<close> are the states at the head of the restart loop after one and two
  restarts (\<open>ring6_restart_1\<close>, \<open>ring6_restart_2\<close> below).
\<close>

definition ring6 :: graph where
  "ring6 = [(0, [1, 5]), (1, [0, 2]), (2, [1, 3]), (3, [2, 4]), (4, [3, 5]), (5, [4, 0])]"

definition second_choice :: "nat \<Rightarrow> nat" where
  "second_choice n = 1"

definition ring6_start :: ctrl_state where
  "ring6_start = fluidc_init [0, 3, 1, 2, 4, 5] 2"

definition ring6_first :: ctrl_state where
  "ring6_first =
     \<lparr>density = [0 \<mapsto> 1 / 3, 1 \<mapsto> 1 / 3], com_to_numvertices = [0 \<mapsto> 3, 1 \<mapsto> 3],
      seed_set = [(1, 0), (2, 1)], bad_seed_set = [(0, 0), (3, 1)],
      seed_init_num = 0, iter = 1,
      old_communities = Some [0, 0, 1, 1, 1, 0], new_communities = Some [[0, 1, 5], [3, 2, 4]],
      nmi_list = [], min_NMI = 1, draws = 2\<rparr>"

definition ring6_second :: ctrl_state where
  "ring6_second =
     \<lparr>density = [0 \<mapsto> 1 / 3, 1 \<mapsto> 1 / 3], com_to_numvertices = [0 \<mapsto> 3, 1 \<mapsto> 3],
      seed_set = [(5, 0), (4, 1)], bad_seed_set = [(0, 0), (3, 1), (1, 0), (2, 1)],
      seed_init_num = 1, iter = 2,
      old_communities = Some [0, 0, 1, 1, 1, 0], new_communities = Some [[1, 0, 5], [2, 3, 4]],
      nmi_list = [0], min_NMI = 0, draws = 6\<rparr>"


text \<open>
  The states of the four-vertex ring after one and two restarts.  The second restart finds
  every vertex in the history and exhausts the candidates of community \<open>0\<close>.
\<close>

definition ring_first :: ctrl_state where
  "ring_first =
     \<lparr>density = [0 \<mapsto> 1 / 2, 1 \<mapsto> 1 / 2], com_to_numvertices = [0 \<mapsto> 2, 1 \<mapsto> 2],
      seed_set = [(1, 0), (3, 1)], bad_seed_set = [(0, 0), (2, 1)],
      seed_init_num = 0, iter = 1,
      old_communities = Some [0, 0, 1, 1], new_communities = Some [[0, 1], [2, 3]],
      nmi_list = [], min_NMI = 1, draws = 4\<rparr>"

definition ring_second :: ctrl_state where
  "ring_second =
     \<lparr>density = [0 \<mapsto> 1 / 2, 1 \<mapsto> 1 / 2], com_to_numvertices = [0 \<mapsto> 2, 1 \<mapsto> 2],
      seed_set = [], bad_seed_set = [(0, 0), (2, 1), (1, 0), (3, 1)],
      seed_init_num = 10, iter = 2,
      old_communities = Some [0, 0, 1, 1], new_communities = Some [[1, 0], [3, 2]],
      nmi_list = [0], min_NMI = 0, draws = 6\<rparr>"


text \<open>The edge graph once vertex \<open>1\<close> has joined community \<open>0\<close>.\<close>

definition two_members :: engine_state where
  "two_members = \<lparr>density = [0 \<mapsto> 1 / 2], com_to_numvertices = [0 \<mapsto> 2],
                   communities = [(0, 0), (1, 0)]\<rparr>"

text \<open>
  The path \<open>3 - 2 - 0 - 1\<close> with the seeds \<open>{0: 0, 1: 1}\<close>, and the state the engine ends in
  when it visits the vertices in the controller's order \<open>[0, 2, 1, 3]\<close>: in the second pass
  the seed \<open>0\<close> of community \<open>0\<close> moves to community \<open>1\<close>.
\<close>

definition path_graph :: graph where
  "path_graph = [(0, [2, 1]), (1, [0]), (2, [0, 3]), (3, [2])]"

definition path_seeds :: engine_state where
  "path_seeds = \<lparr>density = [0 \<mapsto> 1, 1 \<mapsto> 1], com_to_numvertices = [0 \<mapsto> 1, 1 \<mapsto> 1],
                  communities = [(0, 0), (1, 1)]\<rparr>"

definition path_final :: engine_state where
  "path_final = \<lparr>density = [0 \<mapsto> 1 / 2, 1 \<mapsto> 1 / 2], com_to_numvertices = [0 \<mapsto> 2, 1 \<mapsto> 2],
                  communities = [(0, 1), (1, 1), (2, 0), (3, 0)]\<rparr>"

text \<open>
  A star whose centre \<open>0\<close> is unlabelled: leaf \<open>1\<close> is the one member of community \<open>0\<close>,
  leaves \<open>2\<close> and \<open>3\<close> are the two members of community \<open>1\<close>, so both communities collect
  the vote \<open>1\<close> at the centre.  \<open>tie_joined\<close> is the state once the centre has joined
  community \<open>1\<close>.
\<close>

definition tie_graph :: graph where
  "tie_graph = [(0, [1, 2, 3]), (1, [0]), (2, [0]), (3, [0])]"

definition tie_state :: engine_state where
  "tie_state = \<lparr>density = [0 \<mapsto> 1, 1 \<mapsto> 1 / 2], com_to_numvertices = [0 \<mapsto> 1, 1 \<mapsto> 2],
                 communities = [(1, 0), (2, 1), (3, 1)]\<rparr>"

definition tie_joined :: engine_state where
  "tie_joined = \<lparr>density = [0 \<mapsto> 1, 1 \<mapsto> 1 / 3], com_to_numvertices = [0 \<mapsto> 1, 1 \<mapsto> 3],
                  communities = [(1, 0), (2, 1), (3, 1), (0, 1)]\<rparr>"

text \<open>A labelled vertex whose label has no count.\<close>

definition uncounted :: engine_state where
  "uncounted = \<lparr>density = Map.empty, com_to_numvertices = Map.empty, communities = [(0, 0)]\<rparr>"

section \<open>The engine's passes\<close>

lemmas engine_defs = update_vertex_def com_counter_def add_vote_def counter_update_def
  choose_com_def best_communities_def relabel_def depart_def arrive_def

text \<open>
  The loop makes at least one pass, and it makes pass \<open>n + 1\<close> only while
  \<open>n \<le> max_iter\<close>: the test of line 117 is \<^verbatim>\<open>iter_count > max_iter\<close>, so the cap on the
  number of passes is \<open>max_iter + 1\<close>.
\<close>

lemma engine_loop_passes:
  "engine_loop G vertices md max_iter st iter_count = Inr (st', n) \<Longrightarrow>
     iter_count < n \<and> (n \<le> max_iter + 1 \<or> n = iter_count + 1)"
proof (induction G vertices md max_iter st iter_count rule: engine_loop.induct)
  case (1 G vertices md max_iter st iter_count)
  note eq = engine_loop.simps[of G vertices md max_iter st iter_count]
  show ?case
  proof (cases "run_pass G md vertices (st, False)")
    case (Inl e)
    with "1.prems" show ?thesis by (simp add: eq)
  next
    case (Inr sc)
    obtain st1 cont where sc: "sc = (st1, cont)" by (cases sc)
    show ?thesis
    proof (cases "\<not> iter_count + 1 > max_iter \<and> cont")
      case True
      with "1.prems" Inr sc
      have "engine_loop G vertices md max_iter st1 (iter_count + 1) = Inr (st', n)"
        by (simp add: eq)
      with "1.IH"[OF Inr sc[symmetric]] True show ?thesis by fastforce
    next
      case False
      with "1.prems" Inr sc show ?thesis by (auto simp: eq split: if_splits)
    qed
  qed
qed

text \<open>
  C3 (the engine makes at most \<^verbatim>\<open>max_iter\<close> passes).  On the edge graph with one seed
  and \<^verbatim>\<open>max_iter = 1\<close> the engine makes two passes: the first labels vertex \<open>1\<close>, and
  since \<^verbatim>\<open>1 > 1\<close> is false the loop goes round again; the second pass changes nothing
  and ends at the test \<^verbatim>\<open>2 > 1\<close>.
\<close>

theorem engine_passes_exceed_cap:
  "map_sum id snd (engine_loop edge_graph [0, 1] 1 1 one_seed 0) = Inr 2"
  by (simp add: edge_graph_def one_seed_def engine_defs engine_loop.simps)

section \<open>The departure update\<close>




section \<open>The controller: fields a restart changes\<close>

lemma keys_dict_merge: "fst ` set (dict_merge a b) = fst ` set a \<union> fst ` set b"
proof -
  have "\<And>a. fst ` set (fold (\<lambda>(k, v). AList.update k v) b a) = fst ` set a \<union> fst ` set b"
    by (induction b) (auto simp: dom_update split: prod.splits)
  then show ?thesis by (simp add: dict_merge_def)
qed

lemma fold_seeds:
  "fold (\<lambda>(v, c) s. s\<lparr>com_to_numvertices := (com_to_numvertices s)(c \<mapsto> 1),
                     density := (density s)(c \<mapsto> max_density)\<rparr>) xs (s::ctrl_state)
   = s\<lparr>com_to_numvertices := fold (\<lambda>(v, c) m. m(c \<mapsto> 1)) xs (com_to_numvertices s),
       density := fold (\<lambda>(v, c) m. m(c \<mapsto> max_density)) xs (density s)\<rparr>"
  by (induction xs arbitrary: s) (simp_all split: prod.splits)

lemma init_seeds_eq:
  "init_seeds st =
     st\<lparr>com_to_numvertices := fold (\<lambda>(v, c) m. m(c \<mapsto> 1)) (seed_set st) (com_to_numvertices st),
        density := fold (\<lambda>(v, c) m. m(c \<mapsto> max_density)) (seed_set st) (density st)\<rparr>"
  by (simp add: init_seeds_def fold_seeds)

lemma init_seeds_fields [simp]:
  "seed_set (init_seeds st) = seed_set st"
  "bad_seed_set (init_seeds st) = bad_seed_set st"
  "seed_init_num (init_seeds st) = seed_init_num st"
  "iter (init_seeds st) = iter st"
  "old_communities (init_seeds st) = old_communities st"
  "new_communities (init_seeds st) = new_communities st"
  "nmi_list (init_seeds st) = nmi_list st"
  "min_NMI (init_seeds st) = min_NMI st"
  "draws (init_seeds st) = draws st"
  by (simp_all add: init_seeds_eq)

lemma new_seed_set_fields [simp]:
  "bad_seed_set (new_seed_set rnd comms st) = bad_seed_set st"
  "iter (new_seed_set rnd comms st) = iter st"
  "old_communities (new_seed_set rnd comms st) = old_communities st"
  "new_communities (new_seed_set rnd comms st) = new_communities st"
  "nmi_list (new_seed_set rnd comms st) = nmi_list st"
  "min_NMI (new_seed_set rnd comms st) = min_NMI st"
  "density (new_seed_set rnd comms st) = density st"
  "com_to_numvertices (new_seed_set rnd comms st) = com_to_numvertices st"
  by (simp_all add: new_seed_set_def split: prod.splits)

lemma seed_init_num_new_seed_set:
  "seed_init_num (new_seed_set rnd comms st) =
     (if fst (snd (draw_seeds rnd (bad_seed_set st) comms [] 0 [] (draws st))) then 10
      else seed_init_num st)"
  by (simp add: new_seed_set_def split: prod.splits)

text \<open>
  The drawing loop leaves by its \<^verbatim>\<open>break\<close> exactly when some community, from the current
  index on, has all its members in the history: a member outside the history is never
  rejected, and a community without one loses a candidate at every draw.
\<close>

lemma draw_seeds_exhausted_iff:
  "set removed_list \<subseteq> fst ` set bad \<Longrightarrow>
   fst (snd (draw_seeds rnd bad comms seeds community_idx removed_list n)) \<longleftrightarrow>
     (\<exists>i. community_idx \<le> i \<and> i < length comms \<and> set (comms ! i) \<subseteq> fst ` set bad)"
proof (induction rnd bad comms seeds community_idx removed_list n rule: draw_seeds.induct)
  case (1 rnd bad comms seeds community_idx removed_list n)
  note eq = draw_seeds.simps[of rnd bad comms seeds community_idx removed_list n]
  let ?cur = "candidates (comms ! community_idx) removed_list"
  let ?new_v = "choice rnd n ?cur"
  show ?case
  proof (cases "community_idx < length comms")
    case False
    then show ?thesis by (auto simp: eq)
  next
    case in_range: True
    show ?thesis
    proof (cases "?cur = []")
      case True
      then have "set (comms ! community_idx) \<subseteq> set removed_list"
        by (auto simp: candidates_def filter_empty_conv)
      with "1.prems" have "set (comms ! community_idx) \<subseteq> fst ` set bad" by blast
      with in_range True show ?thesis by (auto simp: eq)
    next
      case nonempty: False
      then have mem: "?new_v \<in> set ?cur" by (rule choice_mem)
      then have mem': "?new_v \<in> set (comms ! community_idx)" by (auto simp: candidates_def)
      show ?thesis
      proof (cases "?new_v \<in> set (map fst bad)")
        case True
        with "1.prems" have sub: "set (removed_list @ [?new_v]) \<subseteq> fst ` set bad" by auto
        from "1.IH"(1)[OF in_range refl nonempty refl True sub] in_range nonempty True
        show ?thesis by (simp add: eq Let_def)
      next
        case False
        have "fst (snd (draw_seeds rnd bad comms seeds community_idx removed_list n)) \<longleftrightarrow>
              (\<exists>i\<ge>Suc community_idx. i < length comms \<and> set (comms ! i) \<subseteq> fst ` set bad)"
          using "1.IH"(2)[OF in_range refl nonempty refl False] in_range nonempty False
          by (simp add: eq Let_def)
        moreover have "\<not> set (comms ! community_idx) \<subseteq> fst ` set bad"
          using False mem' by auto
        ultimately show ?thesis
          by (metis Suc_leI le_neq_implies_less Suc_leD)
      qed
    qed
  qed
qed

lemmas ctrl_defs = restart_def init_seeds_def engine_input_def fluidc_modified_def
  sorted_vertices_def degree_def invert_dict_def nodes_color_def set_color_def
  after_engine_def score_restart_def new_seed_set_def draw_seeds.simps candidates_def
  choice_def dict_merge_def fluidc_init_def max_density_def engine_loop.simps
  Let_def upt_conv_Cons

lemma ring6_restart_1:
  "restart ring6 100 second_choice zero_scorer ring6_start = Inr ring6_first"
  by (simp add: ring6_def ring6_start_def ring6_first_def second_choice_def zero_scorer_def
        ctrl_defs engine_defs fun_eq_iff)

lemma ring6_restart_2:
  "restart ring6 100 second_choice zero_scorer ring6_first = Inr ring6_second"
  by (simp add: ring6_def ring6_second_def ring6_first_def second_choice_def zero_scorer_def
        ctrl_defs engine_defs fun_eq_iff)

lemma ring_restart_1:
  "restart ring_graph 100 first_choice zero_scorer (fluidc_init [0, 2, 1, 3] 2) = Inr ring_first"
  by (simp add: ring_graph_def ring_first_def first_choice_def zero_scorer_def
        ctrl_defs engine_defs fun_eq_iff)

lemma ring_single_restart:
  "restart ring_graph 1 first_choice zero_scorer (fluidc_init [0, 2, 1, 3] 2) = Inr ring_first"
  by (simp add: ring_graph_def ring_first_def first_choice_def zero_scorer_def
        ctrl_defs engine_defs fun_eq_iff)

lemma ring_restart_2:
  "restart ring_graph 100 first_choice zero_scorer ring_first = Inr ring_second"
  by (simp add: ring_graph_def ring_first_def ring_second_def first_choice_def zero_scorer_def
        ctrl_defs engine_defs fun_eq_iff)

lemma draw_seeds_exhausted:
  "fst (snd (draw_seeds rnd bad comms [] 0 [] n)) \<longleftrightarrow>
     (\<exists>i<length comms. set (comms ! i) \<subseteq> fst ` set bad)"
  by (subst draw_seeds_exhausted_iff) auto

lemma restart_effect:
  assumes "restart G max_iter rnd nmi st = Inr st'"
  shows "\<exists>comms est new_list.
      fluidc_modified G (sorted_vertices G) (engine_input (init_seeds st)) max_density max_iter
        = Inr (comms, est)
    \<and> nodes_color G comms = Inr new_list
    \<and> new_communities st' = Some comms
    \<and> old_communities st' = Some new_list
    \<and> iter st' = iter st + 1
    \<and> nmi_list st' =
        (if iter st \<noteq> 0 then nmi_list st @ [nmi new_list (old_communities st)] else nmi_list st)
    \<and> bad_seed_set st' =
        (if iter st \<noteq> 0 \<and> nmi new_list (old_communities st) < min_NMI st
         then dict_merge (bad_seed_set st) (seed_set st) else bad_seed_set st)
    \<and> min_NMI st' =
        (if iter st \<noteq> 0 \<and> nmi new_list (old_communities st) < min_NMI st
         then nmi new_list (old_communities st) else min_NMI st)
    \<and> seed_init_num st' =
        (if \<exists>i<length comms. set (comms ! i) \<subseteq> fst ` set (bad_seed_set st') then 10
         else if iter st \<noteq> 0 \<and> nmi new_list (old_communities st) < min_NMI st
              then seed_init_num st + 1 else seed_init_num st)"
proof -
  from restart_Inr[OF assms] obtain comms est new_list where
    eng: "fluidc_modified G (sorted_vertices G) (engine_input (init_seeds st)) max_density max_iter
      = Inr (comms, est)"
    and col: "nodes_color G comms = Inr new_list"
    and st': "st' = after_engine rnd nmi comms est new_list (init_seeds st)"
    by blast
  define st3 where "st3 = score_restart nmi new_list
      ((init_seeds st)\<lparr>density := density est, com_to_numvertices := com_to_numvertices est,
                        new_communities := Some comms\<rparr>)"
  have st'_eq: "st' = (new_seed_set rnd comms (st3\<lparr>old_communities := Some new_list\<rparr>))
                       \<lparr>iter := iter st + 1\<rparr>"
    by (simp add: st' after_engine_def Let_def st3_def score_restart_def)
  have f1: "nmi_list st3 =
        (if iter st \<noteq> 0 then nmi_list st @ [nmi new_list (old_communities st)] else nmi_list st)"
    and f2: "bad_seed_set st3 =
        (if iter st \<noteq> 0 \<and> nmi new_list (old_communities st) < min_NMI st
         then dict_merge (bad_seed_set st) (seed_set st) else bad_seed_set st)"
    and f3: "min_NMI st3 =
        (if iter st \<noteq> 0 \<and> nmi new_list (old_communities st) < min_NMI st
         then nmi new_list (old_communities st) else min_NMI st)"
    and f4: "seed_init_num st3 =
        (if iter st \<noteq> 0 \<and> nmi new_list (old_communities st) < min_NMI st
         then seed_init_num st + 1 else seed_init_num st)"
    and f5: "new_communities st3 = Some comms"
    by (simp_all add: st3_def score_restart_def Let_def)
  have g1: "nmi_list st' = nmi_list st3" and g2: "bad_seed_set st' = bad_seed_set st3"
    and g3: "min_NMI st' = min_NMI st3" and g5: "new_communities st' = new_communities st3"
    and g6: "old_communities st' = Some new_list" and g7: "iter st' = iter st + 1"
    by (simp_all add: st'_eq)
  have g4: "seed_init_num st' =
      (if \<exists>i<length comms. set (comms ! i) \<subseteq> fst ` set (bad_seed_set st') then 10
       else seed_init_num st3)"
    unfolding g2 by (auto simp: st'_eq seed_init_num_new_seed_set draw_seeds_exhausted)
  show ?thesis
    apply (rule exI[of _ comms], rule exI[of _ est], rule exI[of _ new_list])
    unfolding g4 unfolding g1 g2 g3 g5 g6 g7 f1 f2 f3 f4 f5
    using eng col by simp
qed

lemma loop_reached:
  "reached G max_iter rnd nmi st st' \<Longrightarrow>
     fluidc_plus_loop G max_iter rnd nmi st = fluidc_plus_loop G max_iter rnd nmi st'"
proof (induction rule: reached.induct)
  case (reached_refl st)
  show ?case by simp
next
  case (reached_step st st' st'')
  have "fluidc_plus_loop G max_iter rnd nmi st' = fluidc_plus_loop G max_iter rnd nmi st''"
    using reached_step.hyps(2,3,4) by (subst fluidc_plus_loop.simps) simp
  with reached_step.IH show ?case by simp
qed

lemma reached_trans_step:
  assumes "reached G max_iter rnd nmi st1 st'"
    and "restart G max_iter rnd nmi st = Inr st1" "seed_init_num st < 10" "iter st < max_iter"
  shows "reached G max_iter rnd nmi st st'"
  using assms
proof (induction rule: reached.induct)
  case (reached_refl st1)
  then show ?case by (metis reached.intros)
next
  case (reached_step st1 st' st'')
  then show ?case by (metis reached.intros)
qed

lemma loop_Inr_reached:
  "fluidc_plus_loop G max_iter rnd nmi st = Inr st' \<Longrightarrow> reached G max_iter rnd nmi st st'"
proof (induction G max_iter rnd nmi st rule: fluidc_plus_loop.induct)
  case (1 G max_iter rnd nmi st)
  note eq = fluidc_plus_loop.simps[of G max_iter rnd nmi st]
  show ?case
  proof (cases "seed_init_num st < 10 \<and> iter st < max_iter")
    case False
    with "1.prems" have "st' = st" by (simp add: eq)
    then show ?thesis by (simp add: reached_refl)
  next
    case True
    then obtain st1 where r: "restart G max_iter rnd nmi st = Inr st1"
      using "1.prems" by (cases "restart G max_iter rnd nmi st") (simp_all add: eq)
    with "1.prems" True have "fluidc_plus_loop G max_iter rnd nmi st1 = Inr st'"
      by (simp add: eq)
    from "1.IH"[OF True r this] have "reached G max_iter rnd nmi st1 st'" .
    from reached_trans_step[OF this r] True show ?thesis by simp
  qed
qed

lemma loop_stops:
  "\<not> (seed_init_num st < 10 \<and> iter st < max_iter) \<Longrightarrow>
     fluidc_plus_loop G max_iter rnd nmi st = Inr st"
  by (subst fluidc_plus_loop.simps) auto

lemma loop_continues:
  "seed_init_num st < 10 \<Longrightarrow> iter st < max_iter \<Longrightarrow> restart G max_iter rnd nmi st = Inr st' \<Longrightarrow>
     fluidc_plus_loop G max_iter rnd nmi st = fluidc_plus_loop G max_iter rnd nmi st'"
  by (subst fluidc_plus_loop.simps) simp



section \<open>The gate on the score\<close>

text \<open>
  C5 (bad-restart gating).  A restart that returns has stored the new groups and their
  colour list \<open>new_list\<close>.  On the first restart (\<^verbatim>\<open>iter = 0\<close>) no score is taken: the
  trace, the history and the minimum are unchanged.  On every later restart the score
  \<open>nmi new_list old_communities\<close> is appended to the trace, and exactly when it is
  strictly below \<^verbatim>\<open>min_NMI\<close> the seed set is merged into the history, the minimum becomes
  the score and the counter is incremented by one.  The counter is the gate's value unless
  the drawing of the next seed set was exhausted, which sets it to \<open>10\<close>.
\<close>

theorem bad_restart_gate:
  assumes "restart G max_iter rnd nmi st = Inr st'"
  shows "\<exists>comms new_list.
      new_communities st' = Some comms \<and> nodes_color G comms = Inr new_list
    \<and> old_communities st' = Some new_list
    \<and> nmi_list st' =
        (if iter st \<noteq> 0 then nmi_list st @ [nmi new_list (old_communities st)] else nmi_list st)
    \<and> bad_seed_set st' =
        (if iter st \<noteq> 0 \<and> nmi new_list (old_communities st) < min_NMI st
         then dict_merge (bad_seed_set st) (seed_set st) else bad_seed_set st)
    \<and> min_NMI st' =
        (if iter st \<noteq> 0 \<and> nmi new_list (old_communities st) < min_NMI st
         then nmi new_list (old_communities st) else min_NMI st)
    \<and> seed_init_num st' =
        (if \<exists>i<length comms. set (comms ! i) \<subseteq> fst ` set (bad_seed_set st') then 10
         else if iter st \<noteq> 0 \<and> nmi new_list (old_communities st) < min_NMI st
              then seed_init_num st + 1 else seed_init_num st)"
  using restart_effect[OF assms] by blast

theorem bad_restart_gate_witness:
  "restart ring6 100 second_choice zero_scorer ring6_start = Inr ring6_first
   \<and> nmi_list ring6_first = nmi_list ring6_start
   \<and> bad_seed_set ring6_first = bad_seed_set ring6_start
   \<and> seed_init_num ring6_first = seed_init_num ring6_start
   \<and> restart ring6 100 second_choice zero_scorer ring6_first = Inr ring6_second
   \<and> nmi_list ring6_second = [0]
   \<and> bad_seed_set ring6_second = [(0, 0), (3, 1), (1, 0), (2, 1)]
   \<and> min_NMI ring6_second = 0
   \<and> seed_init_num ring6_second = seed_init_num ring6_first + 1"
proof -
  from bad_restart_gate[OF ring6_restart_1] bad_restart_gate[OF ring6_restart_2]
  have "nmi_list ring6_second = nmi_list ring6_first @ [0]"
    by (auto simp: ring6_first_def ring6_second_def zero_scorer_def)
  moreover have "nmi_list ring6_first = nmi_list ring6_start
   \<and> bad_seed_set ring6_first = bad_seed_set ring6_start
   \<and> seed_init_num ring6_first = seed_init_num ring6_start
   \<and> bad_seed_set ring6_second = [(0, 0), (3, 1), (1, 0), (2, 1)]
   \<and> min_NMI ring6_second = 0
   \<and> seed_init_num ring6_second = seed_init_num ring6_first + 1"
    by (simp add: ring6_first_def ring6_second_def ring6_start_def fluidc_init_def dict_merge_def
          upt_conv_Cons Let_def)
  ultimately show ?thesis
    using ring6_restart_1 ring6_restart_2 by (simp add: ring6_first_def)
qed

section \<open>Exhausted seed generation\<close>

text \<open>
  C6 (seed-generation exhaustion).  Let a restart return with the groups \<open>comms\<close>, and let
  some group hold vertices of the history only, which is exactly when the drawing loop runs
  out of candidates (\<open>draw_seeds_exhausted\<close>).  Then the counter has been forced to \<open>10\<close>,
  the restart loop stops in that very state, the groups are those the engine has just
  returned, and a run that reached this restart returns them.
\<close>

theorem seed_exhaustion_ends_run:
  assumes "restart G max_iter rnd nmi st = Inr st'"
    and "new_communities st' = Some comms"
    and "i < length comms" and "set (comms ! i) \<subseteq> fst ` set (bad_seed_set st')"
  shows "seed_init_num st' = 10
       \<and> fluidc_plus_loop G max_iter rnd nmi st' = Inr st'
       \<and> (\<exists>est. fluidc_modified G (sorted_vertices G) (engine_input (init_seeds st))
                   max_density max_iter = Inr (comms, est))
       \<and> (reached G max_iter rnd nmi (fluidc_init shuffled k) st
            \<and> seed_init_num st < 10 \<and> iter st < max_iter \<longrightarrow>
          fluidc_plus G k max_iter shuffled rnd nmi = Inr (Some comms))"
proof -
  from restart_effect[OF assms(1)] obtain comms' est new_list where
    eng': "fluidc_modified G (sorted_vertices G) (engine_input (init_seeds st))
                   max_density max_iter = Inr (comms', est)"
    and new': "new_communities st' = Some comms'"
    and num': "seed_init_num st' =
        (if \<exists>i<length comms'. set (comms' ! i) \<subseteq> fst ` set (bad_seed_set st') then 10
         else if iter st \<noteq> 0 \<and> nmi new_list (old_communities st) < min_NMI st
              then seed_init_num st + 1 else seed_init_num st)"
    by blast
  from new' assms(2) have same: "comms' = comms" by simp
  note eng = eng'[unfolded same] and num = num'[unfolded same]
  from num assms(3,4) have ten: "seed_init_num st' = 10" by auto
  then have stop: "fluidc_plus_loop G max_iter rnd nmi st' = Inr st'"
    by (simp add: loop_stops)
  have "fluidc_plus G k max_iter shuffled rnd nmi = Inr (Some comms)"
    if r: "reached G max_iter rnd nmi (fluidc_init shuffled k) st"
      and c: "seed_init_num st < 10" "iter st < max_iter"
  proof -
    have "fluidc_plus_loop G max_iter rnd nmi (fluidc_init shuffled k)
            = fluidc_plus_loop G max_iter rnd nmi st"
      by (rule loop_reached[OF r])
    also have "\<dots> = fluidc_plus_loop G max_iter rnd nmi st'"
      by (rule loop_continues[OF c assms(1)])
    finally show ?thesis
      by (simp add: fluidc_plus_def stop assms(2))
  qed
  with ten stop eng show ?thesis by blast
qed

text \<open>
  On the four-vertex ring the second restart finds all four vertices in the history.
\<close>

theorem seed_exhaustion_ends_run_witness:
  "restart ring_graph 100 first_choice zero_scorer ring_first = Inr ring_second
   \<and> new_communities ring_second = Some [[1, 0], [3, 2]]
   \<and> (0::nat) < length [[1, 0], [3, 2 :: nat]]
   \<and> set ([[1, 0], [3, 2]] ! 0) \<subseteq> fst ` set (bad_seed_set ring_second)
   \<and> reached ring_graph 100 first_choice zero_scorer (fluidc_init [0, 2, 1, 3] 2) ring_first
   \<and> seed_init_num ring_second = 10
   \<and> fluidc_plus ring_graph 2 100 [0, 2, 1, 3] first_choice zero_scorer = Inr (Some [[1, 0], [3, 2]])"
proof -
  have a: "new_communities ring_second = Some [[1, 0], [3, 2]]"
    and b: "(0::nat) < length [[1, 0], [3, 2 :: nat]]"
    and c: "set ([[1, 0], [3, 2]] ! 0) \<subseteq> fst ` set (bad_seed_set ring_second)"
    and d: "seed_init_num ring_first < 10" "iter ring_first < 100"
    and e: "seed_init_num (fluidc_init [0, 2, 1, 3] 2) < 10" "iter (fluidc_init [0, 2, 1, 3] 2) < 100"
    by (simp_all add: ring_second_def ring_first_def fluidc_init_def Let_def)
  have r: "reached ring_graph 100 first_choice zero_scorer (fluidc_init [0, 2, 1, 3] 2) ring_first"
    by (rule reached_step[OF reached_refl e ring_restart_1])
  from seed_exhaustion_ends_run[OF ring_restart_2 a b c, of "[0, 2, 1, 3]" 2] r d
  show ?thesis using ring_restart_2 a b c by simp
qed

section \<open>A run with a single restart\<close>

lemma init_fields:
  "seed_init_num (fluidc_init shuffled k) = 0" "iter (fluidc_init shuffled k) = 0"
  "nmi_list (fluidc_init shuffled k) = []" "min_NMI (fluidc_init shuffled k) = 1"
  "bad_seed_set (fluidc_init shuffled k) = dict_merge [] (seed_set (fluidc_init shuffled k))"
  "seed_set (fluidc_init shuffled k) = dict_merge [] (zip (take k shuffled) (map int [0..<k]))"
  by (simp_all add: fluidc_init_def Let_def)

lemma single_restart_loop:
  "fluidc_plus_loop G 1 rnd nmi (fluidc_init shuffled k) =
     (case restart G 1 rnd nmi (fluidc_init shuffled k) of Inl e \<Rightarrow> Inl e | Inr st \<Rightarrow> Inr st)"
proof (cases "restart G 1 rnd nmi (fluidc_init shuffled k)")
  case (Inl e)
  then show ?thesis
    by (subst fluidc_plus_loop.simps) (simp add: init_fields)
next
  case (Inr st)
  from iter_restart[OF Inr] have "iter st = 1" by (simp add: init_fields)
  then have "fluidc_plus_loop G 1 rnd nmi st = Inr st" by (simp add: loop_stops)
  with Inr show ?thesis
    by (subst fluidc_plus_loop.simps) (simp add: init_fields)
qed

text \<open>
  C7 (restart cap scenario).  With the scorer that always returns \<open>0\<close> and
  \<^verbatim>\<open>max_iter = 1\<close> the run on the four-vertex ring ends after one restart, with the
  counter at \<open>0\<close>: the loop condition \<^verbatim>\<open>iter < max_iter\<close> admits a single restart, and the
  first restart takes no score.
\<close>

lemma ring_single_run:
  "fluidc_plus_loop ring_graph 1 first_choice zero_scorer (fluidc_init [0, 2, 1, 3] 2)
     = Inr ring_first"
  by (simp only: single_restart_loop ring_single_restart sum.case)

theorem restart_cap_counterexample:
  "map_sum id iter
     (fluidc_plus_loop ring_graph 1 first_choice zero_scorer (fluidc_init [0, 2, 1, 3] 2)) = Inr 1
   \<and> map_sum id seed_init_num
     (fluidc_plus_loop ring_graph 1 first_choice zero_scorer (fluidc_init [0, 2, 1, 3] 2)) = Inr 0
   \<and> fluidc_plus ring_graph 2 1 [0, 2, 1, 3] first_choice zero_scorer = Inr (Some [[0, 1], [2, 3]])"
  unfolding fluidc_plus_def ring_single_run by (simp add: ring_first_def)

text \<open>
  C7, as the code has it: with \<^verbatim>\<open>max_iter = 1\<close>, whatever the scorer returns, a run that
  returns has made exactly one restart, has taken no score, and holds a counter of \<open>0\<close>, or
  of \<open>10\<close> when the seed drawing was exhausted; it returns the groups of that restart.
\<close>

theorem single_restart_run:
  assumes "fluidc_plus_loop G 1 rnd nmi (fluidc_init shuffled k) = Inr st"
  shows "restart G 1 rnd nmi (fluidc_init shuffled k) = Inr st
       \<and> iter st = 1
       \<and> nmi_list st = []
       \<and> (seed_init_num st = 0 \<or> seed_init_num st = 10)
       \<and> (\<exists>comms. new_communities st = Some comms
                 \<and> fluidc_plus G k 1 shuffled rnd nmi = Inr (Some comms))"
proof -
  from assms have r: "restart G 1 rnd nmi (fluidc_init shuffled k) = Inr st"
    by (simp add: single_restart_loop split: sum.splits)
  from restart_effect[OF r] obtain comms where
    "new_communities st = Some comms" "iter st = 1" "nmi_list st = []"
    "seed_init_num st = 0 \<or> seed_init_num st = 10"
    by (auto simp: init_fields split: if_splits)
  with r assms show ?thesis by (simp add: fluidc_plus_def)
qed

theorem single_restart_run_witness:
  "fluidc_plus_loop ring_graph 1 first_choice zero_scorer (fluidc_init [0, 2, 1, 3] 2) = Inr ring_first
   \<and> iter ring_first = 1 \<and> nmi_list ring_first = [] \<and> seed_init_num ring_first = 0
   \<and> new_communities ring_first = Some [[0, 1], [2, 3]]"
proof -
  have l: "fluidc_plus_loop ring_graph 1 first_choice zero_scorer (fluidc_init [0, 2, 1, 3] 2)
             = Inr ring_first"
    by (rule ring_single_run)
  from single_restart_run[OF l] have "iter ring_first = 1 \<and> nmi_list ring_first = []" by simp
  with l show ?thesis by (simp add: ring_first_def)
qed

section \<open>The history of bad seeds\<close>

text \<open>
  C8 (the history only grows).  Before the first restart the history holds exactly the
  vertices of the first seed set, the first \<open>k\<close> of the shuffled nodes.  Between any two
  points of a run, the earlier history's vertices are all in the later one.
\<close>

theorem bad_seed_history_grows:
  "fst ` set (seed_set (fluidc_init shuffled k)) = set (take k shuffled)
   \<and> fst ` set (bad_seed_set (fluidc_init shuffled k)) = set (take k shuffled)
   \<and> (reached G max_iter rnd nmi st st' \<longrightarrow>
        fst ` set (bad_seed_set st) \<subseteq> fst ` set (bad_seed_set st'))"
proof -
  have "fst ` set (seed_set (fluidc_init shuffled k))
          = fst ` set (zip (take k shuffled) (map int [0..<k]))"
    by (simp only: init_fields keys_dict_merge) simp
  also have "\<dots> = set (map fst (zip (take k shuffled) (map int [0..<k])))"
    by simp
  also have "map fst (zip (take k shuffled) (map int [0..<k])) = take k shuffled"
    by (simp add: map_fst_zip_take min_def)
  finally have s: "fst ` set (seed_set (fluidc_init shuffled k)) = set (take k shuffled)" .
  have "fst ` set (bad_seed_set (fluidc_init shuffled k))
          = fst ` set (seed_set (fluidc_init shuffled k))"
    by (simp only: init_fields(5) keys_dict_merge) simp
  with s have b: "fst ` set (bad_seed_set (fluidc_init shuffled k)) = set (take k shuffled)"
    by simp
  have "fst ` set (bad_seed_set st) \<subseteq> fst ` set (bad_seed_set st')"
    if "reached G max_iter rnd nmi st st'"
    using that
  proof (induction rule: reached.induct)
    case (reached_refl st)
    show ?case by simp
  next
    case (reached_step st st' st'')
    from restart_effect[OF reached_step.hyps(4)]
    have "fst ` set (bad_seed_set st') \<subseteq> fst ` set (bad_seed_set st'')"
      by (auto simp: keys_dict_merge split: if_splits)
    with reached_step.IH show ?case by blast
  qed
  with s b show ?thesis by blast
qed

theorem bad_seed_history_grows_witness:
  "reached ring6 100 second_choice zero_scorer ring6_start ring6_second
   \<and> bad_seed_set ring6_start = [(0, 0), (3, 1)]
   \<and> bad_seed_set ring6_second = [(0, 0), (3, 1), (1, 0), (2, 1)]
   \<and> fst ` set (bad_seed_set ring6_start) \<subseteq> fst ` set (bad_seed_set ring6_second)"
proof -
  have c: "seed_init_num ring6_start < 10" "iter ring6_start < 100"
    "seed_init_num ring6_first < 10" "iter ring6_first < 100"
    by (simp_all add: ring6_start_def ring6_first_def init_fields)
  have r: "reached ring6 100 second_choice zero_scorer ring6_start ring6_second"
    by (rule reached_step[OF reached_step[OF reached_refl c(1,2) ring6_restart_1] c(3,4)
          ring6_restart_2])
  from bad_seed_history_grows[of "[0, 3, 1, 2, 4, 5]" 2 ring6 100 second_choice zero_scorer
         ring6_start ring6_second] r
  have "fst ` set (bad_seed_set ring6_start) \<subseteq> fst ` set (bad_seed_set ring6_second)"
    by blast
  moreover have "bad_seed_set ring6_start = [(0, 0), (3, 1)]"
    "bad_seed_set ring6_second = [(0, 0), (3, 1), (1, 0), (2, 1)]"
    by (simp_all add: ring6_start_def ring6_second_def fluidc_init_def Let_def dict_merge_def
          upt_conv_Cons)
  ultimately show ?thesis using r by blast
qed

section \<open>Consistency of density and count\<close>

lemma consistent_cong:
  "density a = density b \<Longrightarrow> com_to_numvertices a = com_to_numvertices b \<Longrightarrow>
     consistent md a = consistent md b"
  by (simp add: consistent_def)

lemma consistent_depart:
  "consistent md st \<Longrightarrow> depart md v st = Inr st' \<Longrightarrow> consistent md st'"
  by (auto simp: consistent_def depart_def split: option.splits if_splits)

lemma consistent_arrive:
  "consistent md st \<Longrightarrow> arrive md v new_com st = Inr st' \<Longrightarrow> consistent md st'"
  by (auto simp: consistent_def arrive_def split: option.splits if_splits)

lemma consistent_relabel:
  "consistent md st \<Longrightarrow> relabel md v new_com st = Inr st' \<Longrightarrow> consistent md st'"
  by (auto simp: relabel_def split: sum.splits dest: consistent_depart consistent_arrive)

lemma update_vertex_cases:
  assumes "update_vertex G md (st, cont) v = Inr (st', cont')"
  shows "(st' = st \<and> cont' = cont) \<or> (\<exists>new_com. relabel md v new_com st = Inr st' \<and> cont')"
  using assms unfolding update_vertex_def Let_def
  by (auto split: option.splits if_splits sum.splits prod.splits)

lemma consistent_update_vertex:
  "consistent md st \<Longrightarrow> update_vertex G md (st, cont) v = Inr (st', cont') \<Longrightarrow> consistent md st'"
  by (auto dest!: update_vertex_cases dest: consistent_relabel)

lemma consistent_run_pass:
  "consistent md (fst sc) \<Longrightarrow> run_pass G md vs sc = Inr sc' \<Longrightarrow> consistent md (fst sc')"
proof (induction vs arbitrary: sc)
  case Nil
  then show ?case by simp
next
  case (Cons v vs)
  from Cons.prems(2) obtain sc1 where u: "update_vertex G md sc v = Inr sc1"
    and r: "run_pass G md vs sc1 = Inr sc'"
    by (auto split: sum.splits)
  from u Cons.prems(1) have "consistent md (fst sc1)"
    using consistent_update_vertex[of md "fst sc" G "snd sc" v "fst sc1" "snd sc1"] by simp
  from Cons.IH[OF this r] show ?case .
qed

lemma consistent_engine_loop:
  "consistent md st \<Longrightarrow> engine_loop G vertices md max_iter st n = Inr (st', n') \<Longrightarrow>
     consistent md st'"
proof (induction G vertices md max_iter st n rule: engine_loop.induct)
  case (1 G vertices md max_iter st iter_count)
  note eq = engine_loop.simps[of G vertices md max_iter st iter_count]
  from "1.prems"(2) obtain st1 cont where p: "run_pass G md vertices (st, False) = Inr (st1, cont)"
    by (auto simp: eq split: sum.splits)
  from consistent_run_pass[OF _ p] "1.prems"(1) have c1: "consistent md st1" by simp
  show ?case
  proof (cases "\<not> iter_count + 1 > max_iter \<and> cont")
    case True
    with "1.prems"(2) p
    have "engine_loop G vertices md max_iter st1 (iter_count + 1) = Inr (st', n')"
      by (simp add: eq)
    from "1.IH"[OF p refl _ _ c1 this] True show ?thesis by simp
  next
    case False
    with "1.prems"(2) p have "st' = st1" by (auto simp: eq split: if_splits)
    with c1 show ?thesis by simp
  qed
qed

lemma consistent_fluidc_modified:
  "consistent md st \<Longrightarrow> fluidc_modified G vertices st md max_iter = Inr (groups, st') \<Longrightarrow>
     consistent md st'"
  by (auto simp: fluidc_modified_def split: sum.splits dest: consistent_engine_loop)

lemma fold_seeds_consistent:
  "(\<forall>c n. cm c = Some n \<and> 0 < n \<longrightarrow> dm c = Some (md / real_of_int n)) \<Longrightarrow>
   (\<forall>c n. fold (\<lambda>(v, c) m. m(c \<mapsto> 1)) xs cm c = Some n \<and> 0 < n \<longrightarrow>
          fold (\<lambda>(v, c) m. m(c \<mapsto> md)) xs dm c = Some (md / real_of_int n))"
proof (induction xs arbitrary: cm dm)
  case Nil
  then show ?case by simp
next
  case (Cons x xs)
  obtain v c where x: "x = (v, c)" by (cases x)
  have "\<forall>c' n. (cm(c \<mapsto> 1)) c' = Some n \<and> 0 < n \<longrightarrow>
          (dm(c \<mapsto> md)) c' = Some (md / real_of_int n)"
    using Cons.prems by auto
  from Cons.IH[OF this] show ?case unfolding x by simp
qed

lemma consistent_init_seeds:
  "consistent max_density st \<Longrightarrow> consistent max_density (init_seeds st)"
  using fold_seeds_consistent[of "com_to_numvertices st" "density st" max_density "seed_set st"]
  by (simp add: consistent_def init_seeds_eq)

lemma consistent_restart:
  assumes "consistent max_density st" and "restart G max_iter rnd nmi st = Inr st'"
  shows "consistent max_density st'"
proof -
  from restart_Inr[OF assms(2)] obtain comms est new_list where
    eng: "fluidc_modified G (sorted_vertices G) (engine_input (init_seeds st)) max_density max_iter
      = Inr (comms, est)"
    and st': "st' = after_engine rnd nmi comms est new_list (init_seeds st)"
    by blast
  have "consistent max_density (engine_input (init_seeds st))"
    using consistent_init_seeds[OF assms(1)]
    by (simp add: consistent_def engine_input_def)
  from consistent_fluidc_modified[OF this eng] have "consistent max_density est" .
  moreover have "density st' = density est" "com_to_numvertices st' = com_to_numvertices est"
    by (simp_all add: st' after_engine_def Let_def score_restart_def)
  ultimately show ?thesis by (simp add: consistent_def)
qed

lemma consistent_reached:
  "reached G max_iter rnd nmi st st' \<Longrightarrow> consistent max_density st \<Longrightarrow>
     consistent max_density st'"
  by (induction rule: reached.induct) (auto dest: consistent_restart)

text \<open>
  C2 (density and count stay in step).  Every step of the engine on one vertex, hence
  every label change, takes a consistent bookkeeping to a consistent one, and so does a
  whole run of the engine.  At every point of a controller run the bookkeeping is
  consistent for \<^verbatim>\<open>max_density\<close>, and so is the bookkeeping the engine is started on
  after the seeds of the restart have been initialised.
\<close>

theorem density_count_consistency:
  "(consistent md st \<and> update_vertex G md (st, cont) v = Inr (st', cont') \<longrightarrow> consistent md st')
   \<and> (consistent md st \<and> engine_loop G vertices md max_iter st n = Inr (st'', n') \<longrightarrow>
        consistent md st'')
   \<and> (reached G max_iter rnd nmi (fluidc_init shuffled k) cs \<longrightarrow>
        consistent max_density cs \<and> consistent max_density (engine_input (init_seeds cs)))"
proof -
  have "consistent max_density (fluidc_init shuffled k)"
    by (simp add: consistent_def fluidc_init_def Let_def)
  then have "consistent max_density cs \<and> consistent max_density (engine_input (init_seeds cs))"
    if "reached G max_iter rnd nmi (fluidc_init shuffled k) cs"
    using consistent_reached[OF that] consistent_init_seeds[of cs]
    by (simp add: consistent_def engine_input_def)
  then show ?thesis
    using consistent_update_vertex consistent_engine_loop by blast
qed

theorem density_count_consistency_witness:
  "consistent 1 one_seed
   \<and> update_vertex edge_graph 1 (one_seed, False) 1 = Inr (two_members, True)
   \<and> consistent 1 two_members
   \<and> engine_loop edge_graph [0, 1] 1 100 one_seed 0 = Inr (two_members, 2)
   \<and> reached ring6 100 second_choice zero_scorer (fluidc_init [0, 3, 1, 2, 4, 5] 2) ring6_second
   \<and> consistent max_density ring6_second
   \<and> consistent max_density (engine_input (init_seeds ring6_second))"
proof -
  have a: "consistent 1 one_seed"
    by (simp add: consistent_def one_seed_def)
  have b: "update_vertex edge_graph 1 (one_seed, False) 1 = Inr (two_members, True)"
    by (simp add: edge_graph_def one_seed_def two_members_def engine_defs fun_eq_iff)
  have c: "engine_loop edge_graph [0, 1] 1 100 one_seed 0 = Inr (two_members, 2)"
    by (simp add: edge_graph_def one_seed_def two_members_def engine_defs engine_loop.simps
          fun_eq_iff)
  have d: "seed_init_num ring6_start < 10" "iter ring6_start < 100"
    "seed_init_num ring6_first < 10" "iter ring6_first < 100"
    by (simp_all add: ring6_start_def ring6_first_def init_fields)
  have r: "reached ring6 100 second_choice zero_scorer (fluidc_init [0, 3, 1, 2, 4, 5] 2) ring6_second"
    unfolding ring6_start_def[symmetric]
    by (rule reached_step[OF reached_step[OF reached_refl d(1,2) ring6_restart_1] d(3,4)
          ring6_restart_2])
  from density_count_consistency[where md = 1 and st = one_seed and G = edge_graph
         and cont = False and v = 1 and st' = two_members and cont' = True
         and vertices = "[0, 1]" and max_iter = 100 and n = 0 and st'' = two_members and n' = 2]
    a b c
  have e: "consistent 1 two_members" by blast
  from density_count_consistency[where G = ring6 and max_iter = 100 and rnd = second_choice
         and nmi = zero_scorer and shuffled = "[0, 3, 1, 2, 4, 5]" and k = 2 and cs = ring6_second]
    r
  have "consistent max_density ring6_second
      \<and> consistent max_density (engine_input (init_seeds ring6_second))" by blast
  with a b c e r
  show ?thesis by blast
qed

section \<open>The groups the engine returns\<close>

lemma path_run:
  "fluidc_modified path_graph (sorted_vertices path_graph) path_seeds 1 100
     = Inr ([[0, 1], [2, 3]], path_final)"
  by (simp add: path_graph_def path_seeds_def path_final_def fluidc_modified_def engine_defs
        engine_loop.simps sorted_vertices_def degree_def invert_dict_def fun_eq_iff)

lemma first_seen_snoc:
  "first_seen (xs @ [x]) = (if x \<in> set xs then first_seen xs else first_seen xs @ [x])"
  by (simp add: first_seen_def)

lemma set_first_seen [simp]: "set (first_seen xs) = set xs"
  by (simp add: first_seen_def)

lemma distinct_first_seen [simp]: "distinct (first_seen xs)"
  by (simp add: first_seen_def)

lemma length_first_seen: "length (first_seen xs) = card (set xs)"
  by (simp add: first_seen_def length_remdups_card_conv)

lemma update_tabulated:
  "distinct ls \<Longrightarrow>
   AList.update k x (map (\<lambda>l. (l, f l)) ls) =
     (if k \<in> set ls then map (\<lambda>l. (l, if l = k then x else f l)) ls
      else map (\<lambda>l. (l, f l)) ls @ [(k, x)])"
  by (induction ls) auto

lemma map_of_tabulated:
  "map_of (map (\<lambda>l. (l, f l)) ls) k = (if k \<in> set ls then Some (f k) else None)"
  by (induction ls) auto

lemma invert_dict_snoc:
  "invert_dict (d @ [(v, k)]) =
     (case map_of (invert_dict d) k of
        Some vs \<Rightarrow> AList.update k (vs @ [v]) (invert_dict d)
      | None \<Rightarrow> AList.update k [v] (invert_dict d))"
  unfolding invert_dict_def by simp

lemma invert_dict_eq:
  "invert_dict d = map (\<lambda>l. (l, members_of d l)) (first_seen (map snd d))"
proof (induction d rule: rev_induct)
  case Nil
  show ?case by (simp add: invert_dict_def first_seen_def)
next
  case (snoc x d)
  obtain v k where x: "x = (v, k)" by (cases x)
  have m: "members_of (d @ [(v, k)]) l = (if l = k then members_of d k @ [v] else members_of d l)"
    for l by (simp add: members_of_def)
  show ?case
  proof (cases "k \<in> snd ` set d")
    case True
    then show ?thesis
      by (simp add: x invert_dict_snoc snoc.IH map_of_tabulated update_tabulated first_seen_snoc m)
  next
    case False
    then have "members_of d k = []" "\<forall>x\<in>set d. snd x \<noteq> k"
      by (auto simp: members_of_def filter_empty_conv)
    with False show ?thesis
      by (simp add: x invert_dict_snoc snoc.IH map_of_tabulated update_tabulated first_seen_snoc m)
  qed
qed


lemma update_vertex_invariant:
  assumes step: "\<And>st v c st'. P st \<Longrightarrow> relabel md v c st = Inr st' \<Longrightarrow> P st'"
    and "P (fst sc)" and u: "update_vertex G md sc v = Inr sc1"
  shows "P (fst sc1)"
proof -
  from u have "update_vertex G md (fst sc, snd sc) v = Inr (fst sc1, snd sc1)" by simp
  from update_vertex_cases[OF this]
  consider "fst sc1 = fst sc" | c where "relabel md v c (fst sc) = Inr (fst sc1)"
    by blast
  then show ?thesis
  proof cases
    case 1
    with assms(2) show ?thesis by simp
  next
    case 2
    from step[OF assms(2) 2] show ?thesis .
  qed
qed

lemma run_pass_invariant:
  assumes step: "\<And>st v c st'. P st \<Longrightarrow> relabel md v c st = Inr st' \<Longrightarrow> P st'"
  shows "P (fst sc) \<Longrightarrow> run_pass G md vs sc = Inr sc' \<Longrightarrow> P (fst sc')"
proof (induction vs arbitrary: sc)
  case Nil
  then show ?case by simp
next
  case (Cons v vs)
  from Cons.prems(2) obtain sc1 where u: "update_vertex G md sc v = Inr sc1"
    and r: "run_pass G md vs sc1 = Inr sc'"
    by (cases "update_vertex G md sc v") simp_all
  have "P (fst sc1)"
  proof (rule update_vertex_invariant[where P = P and md = md and sc = sc and G = G and v = v])
    fix s v c s'
    assume "P s" "relabel md v c s = Inr s'"
    then show "P s'" by (rule step)
  next
    show "P (fst sc)" by (rule Cons.prems(1))
  next
    show "update_vertex G md sc v = Inr sc1" by (rule u)
  qed
  from Cons.IH[OF this r] show ?case .
qed

lemma engine_loop_invariant:
  "(\<And>st v c st'. P st \<Longrightarrow> relabel md v c st = Inr st' \<Longrightarrow> P st') \<Longrightarrow>
   P st \<Longrightarrow> engine_loop G vertices md max_iter st n = Inr (st', n') \<Longrightarrow> P st'"
proof (induction G vertices md max_iter st n rule: engine_loop.induct)
  case (1 G vertices md max_iter st iter_count)
  note eq = engine_loop.simps[of G vertices md max_iter st iter_count]
  note step = "1.prems"(1)
  from "1.prems"(3) obtain sc where p0: "run_pass G md vertices (st, False) = Inr sc"
    by (cases "run_pass G md vertices (st, False)") (simp_all add: eq)
  obtain st1 cont where sc: "sc = (st1, cont)" by (cases sc)
  note p = p0[unfolded sc]
  have "P (fst (st1, cont))"
  proof (rule run_pass_invariant[where P = P and md = md and G = G and vs = vertices
           and sc = "(st, False)" and sc' = "(st1, cont)"])
    fix s v c s'
    assume "P s" "relabel md v c s = Inr s'"
    then show "P s'" by (rule step)
  next
    show "P (fst (st, False))" using "1.prems"(2) by simp
  next
    show "run_pass G md vertices (st, False) = Inr (st1, cont)" by (rule p)
  qed
  then have c1: "P st1" by simp
  show ?case
  proof (cases "\<not> iter_count + 1 > max_iter \<and> cont")
    case True
    with "1.prems"(3) p
    have "engine_loop G vertices md max_iter st1 (iter_count + 1) = Inr (st', n')"
      by (simp add: eq)
    from "1.IH"[OF p refl _ _ step c1 this] True show ?thesis by simp
  next
    case False
    with "1.prems"(3) p have "st' = st1" by (auto simp: eq split: if_splits)
    with c1 show ?thesis by simp
  qed
qed

lemma relabel_communities:
  "relabel md v c st = Inr st' \<Longrightarrow> communities st' = AList.update v c (communities st)"
  by (auto simp: relabel_def depart_def arrive_def split: sum.splits option.splits if_splits)

lemma distinct_keys_engine_loop:
  assumes "distinct (map fst (communities st))"
    and "engine_loop G vertices md max_iter st n = Inr (st', n')"
  shows "distinct (map fst (communities st'))"
proof (rule engine_loop_invariant[where P = "\<lambda>s. distinct (map fst (communities s))"
         and md = md and st = st and G = G and vertices = vertices and max_iter = max_iter
         and n = n and n' = n'])
  fix s v c s'
  assume "distinct (map fst (communities s))" "relabel md v c s = Inr s'"
  then show "distinct (map fst (communities s'))"
    by (simp add: relabel_communities distinct_update)
next
  show "distinct (map fst (communities st))" by (rule assms(1))
next
  show "engine_loop G vertices md max_iter st n = Inr (st', n')" by (rule assms(2))
qed

lemma fluidc_modified_Inr:
  "fluidc_modified G vertices st md max_iter = Inr (groups, st') \<Longrightarrow>
     (\<exists>n. engine_loop G vertices md max_iter st 0 = Inr (st', n))
     \<and> groups = map snd (invert_dict (communities st'))"
  by (auto simp: fluidc_modified_def split: sum.splits)

lemma mem_members_of:
  "distinct (map fst d) \<Longrightarrow> v \<in> set (members_of d l) \<longleftrightarrow> map_of d v = Some l"
  by (auto simp: members_of_def image_iff)




section \<open>The update rule of a vertex, in exact arithmetic\<close>

lemma max_list_Max: "xs \<noteq> [] \<Longrightarrow> max_list xs = Max (set xs)"
proof (cases xs)
  case Nil
  then show "xs \<noteq> [] \<Longrightarrow> ?thesis" by simp
next
  case (Cons a list)
  show ?thesis unfolding Cons max_list.simps by (rule Max.set_eq_fold[symmetric])
qed

lemma set_best_communities:
  assumes "cnt \<noteq> []"
  shows "set (best_communities cnt) =
           {c. \<exists>w. (c, w) \<in> set cnt \<and> Max (snd ` set cnt) - w < 1 / 10000}"
proof -
  from assms have "max_list (map snd cnt) = Max (snd ` set cnt)"
    by (simp add: max_list_Max)
  then show ?thesis
    by (auto simp: best_communities_def Let_def image_iff)
qed

lemma best_communities_nonempty:
  assumes "cnt \<noteq> []"
  shows "best_communities cnt \<noteq> []"
proof -
  have "Max (snd ` set cnt) \<in> snd ` set cnt"
    using assms by (intro Max_in) simp_all
  then obtain c where "(c, Max (snd ` set cnt)) \<in> set cnt" by auto
  then have "c \<in> set (best_communities cnt)"
    unfolding set_best_communities[OF assms] by auto
  then show ?thesis by auto
qed

lemma argmin_least:
  "xs \<noteq> [] \<Longrightarrow> argmin xs < length xs \<and> (\<forall>x\<in>set xs. xs ! argmin xs \<le> x)"
proof (induction xs rule: argmin.induct)
  case 1
  then show ?case by simp
next
  case (2 x)
  show ?case by simp
next
  case (3 x y ys)
  then have IH: "argmin (y # ys) < length (y # ys)"
    "\<forall>z\<in>set (y # ys). (y # ys) ! argmin (y # ys) \<le> z"
    by simp_all
  show ?case
  proof (cases "x \<le> (y # ys) ! argmin (y # ys)")
    case True
    with IH show ?thesis by (auto simp: Let_def intro: order_trans)
  next
    case False
    with IH show ?thesis by (auto simp: Let_def)
  qed
qed

lemma com_densities_Inr:
  "\<forall>b\<in>set bs. \<exists>n. cnt b = Some n \<and> n \<noteq> 0 \<Longrightarrow>
     com_densities md cnt bs = Inr (map (\<lambda>b. md / real_of_int (the (cnt b))) bs)"
  by (induction bs) auto

lemma relabel_label:
  "relabel md v b st = Inr st' \<Longrightarrow> map_of (communities st') v = Some b"
  by (simp add: relabel_communities update_conv')

lemma update_vertex_kept:
  assumes "map_of G v = Some nbrs" and "com_counter st v nbrs \<noteq> []"
    and "choose_com md st v (com_counter st v nbrs) = Inr (c, False)"
  shows "update_vertex G md (st, cont) v = Inr (st, cont)"
  using assms by (simp add: update_vertex_def)

lemma update_vertex_changed:
  assumes "map_of G v = Some nbrs" and "com_counter st v nbrs \<noteq> []"
    and "choose_com md st v (com_counter st v nbrs) = Inr (b, True)"
  shows "update_vertex G md (st, cont) v = map_sum id (\<lambda>s. (s, True)) (relabel md v b st)"
  using assms by (simp add: update_vertex_def split: sum.splits)


lemma choose_com_kept:
  "map_of (communities st) v = Some c \<Longrightarrow> c \<in> set (best_communities cnt) \<Longrightarrow> c \<noteq> - 1 \<Longrightarrow>
     choose_com md st v cnt = Inr (c, False)"
  by (simp add: choose_com_def Let_def)

lemma choose_com_sentinel:
  "\<forall>c. map_of (communities st) v = Some c \<longrightarrow> c \<notin> set bs \<Longrightarrow>
     (case map_of (communities st) v of None \<Rightarrow> - 1
      | Some c \<Rightarrow> if c \<in> set bs then c else - 1) = (- 1 :: int)"
  by (simp split: option.splits)

lemma choose_com_single:
  assumes "\<forall>c. map_of (communities st) v = Some c \<longrightarrow> c \<notin> set (best_communities cnt)"
    and "best_communities cnt = [b]"
  shows "choose_com md st v cnt = Inr (b, True)"
  unfolding choose_com_def Let_def choose_com_sentinel[OF assms(1)]
  by (simp add: assms(2))

lemma choose_com_many:
  assumes "\<forall>c. map_of (communities st) v = Some c \<longrightarrow> c \<notin> set (best_communities cnt)"
    and "1 < length (best_communities cnt)"
    and "com_densities md (com_to_numvertices st) (best_communities cnt) = Inr ds"
  shows "choose_com md st v cnt = Inr (best_communities cnt ! argmin ds, True)"
  unfolding choose_com_def Let_def choose_com_sentinel[OF assms(1)]
  using assms(2,3) by simp

lemma density_le_count:
  fixes a b :: int
  assumes "0 < md" "0 < a" "0 < b" "md / real_of_int a \<le> md / real_of_int b"
  shows "b \<le> a"
proof (rule ccontr)
  assume "\<not> b \<le> a"
  then have "real_of_int a < real_of_int b" by simp
  moreover from assms(2,3) have "0 < real_of_int b * real_of_int a" by simp
  ultimately have "md / real_of_int b < md / real_of_int a"
    using assms(1) by (intro divide_strict_left_mono)
  with assms(4) show False by simp
qed

text \<open>
  The update rule in exact arithmetic.  What follows describes the model, whose votes and
  densities are real numbers; it is a statement about the source only where rounding
  decides no comparison (see the note on floats at the head of the theory).  Let \<open>cnt\<close> be
  the non-empty vote counter of a vertex \<open>v\<close> and \<open>best\<close> the list of line 84.
  \<^item> \<open>best\<close> holds exactly the communities whose vote is within \<open>0.0001\<close> of the maximum.
  \<^item> If the label of \<open>v\<close> is in \<open>best\<close>, the step changes nothing: labels, bookkeeping and
    the flag \<^verbatim>\<open>cont\<close> are as before.  (Labels are community ids, which are not the
    sentinel \<open>-1\<close>.)
  \<^item> Otherwise, if \<open>best\<close> holds one community, the step is the relabelling of \<open>v\<close> to it.
  \<^item> Otherwise, when every candidate has a count other than \<open>0\<close>, the step is the
    relabelling of \<open>v\<close> to a candidate of lowest density \<^verbatim>\<open>max_density / count\<close>; with a
    positive \<^verbatim>\<open>max_density\<close> and positive counts that is a candidate of largest count.
  \<^item> A relabelling that returns leaves \<open>v\<close> with the chosen label.
\<close>

theorem exact_update_rule:
  assumes G: "map_of G v = Some nbrs"
    and cnt: "cnt = com_counter st v nbrs" "cnt \<noteq> []"
    and best: "best = best_communities cnt"
  shows
    "set best = {c. \<exists>w. (c, w) \<in> set cnt \<and> Max (snd ` set cnt) - w < 1 / 10000}
   \<and> (\<forall>c. map_of (communities st) v = Some c \<and> c \<in> set best \<and> c \<noteq> - 1 \<longrightarrow>
          update_vertex G md (st, cont) v = Inr (st, cont))
   \<and> ((\<forall>c. map_of (communities st) v = Some c \<longrightarrow> c \<notin> set best) \<longrightarrow>
        (\<forall>b. best = [b] \<longrightarrow>
           update_vertex G md (st, cont) v = map_sum id (\<lambda>s. (s, True)) (relabel md v b st))
      \<and> (1 < length best \<and> (\<forall>b\<in>set best. \<exists>n. com_to_numvertices st b = Some n \<and> n \<noteq> 0) \<longrightarrow>
           (\<exists>b\<in>set best.
              (\<forall>b'\<in>set best. md / real_of_int (the (com_to_numvertices st b))
                              \<le> md / real_of_int (the (com_to_numvertices st b')))
            \<and> (0 < md \<and> (\<forall>b'\<in>set best. 0 < the (com_to_numvertices st b')) \<longrightarrow>
                 (\<forall>b'\<in>set best. the (com_to_numvertices st b') \<le> the (com_to_numvertices st b)))
            \<and> update_vertex G md (st, cont) v
                = map_sum id (\<lambda>s. (s, True)) (relabel md v b st))))
   \<and> (\<forall>b st'. relabel md v b st = Inr st' \<longrightarrow> map_of (communities st') v = Some b)"
proof -
  note ne = cnt(2)[unfolded cnt(1)]
  have p1: "set best = {c. \<exists>w. (c, w) \<in> set cnt \<and> Max (snd ` set cnt) - w < 1 / 10000}"
    unfolding best by (rule set_best_communities[OF cnt(2)])
  have p2: "update_vertex G md (st, cont) v = Inr (st, cont)"
    if "map_of (communities st) v = Some c" "c \<in> set best" "c \<noteq> - 1" for c
  proof -
    from that have "choose_com md st v (com_counter st v nbrs) = Inr (c, False)"
      unfolding best cnt(1) by (rule choose_com_kept)
    from update_vertex_kept[OF G ne this] show ?thesis .
  qed
  have p3a: "update_vertex G md (st, cont) v = map_sum id (\<lambda>s. (s, True)) (relabel md v b st)"
    if out: "\<forall>c. map_of (communities st) v = Some c \<longrightarrow> c \<notin> set best" and one: "best = [b]" for b
  proof -
    from out one have "choose_com md st v (com_counter st v nbrs) = Inr (b, True)"
      unfolding best cnt(1) by (rule choose_com_single)
    from update_vertex_changed[OF G ne this] show ?thesis .
  qed
  have p3b: "\<exists>b\<in>set best.
              (\<forall>b'\<in>set best. md / real_of_int (the (com_to_numvertices st b))
                              \<le> md / real_of_int (the (com_to_numvertices st b')))
            \<and> (0 < md \<and> (\<forall>b'\<in>set best. 0 < the (com_to_numvertices st b')) \<longrightarrow>
                 (\<forall>b'\<in>set best. the (com_to_numvertices st b') \<le> the (com_to_numvertices st b)))
            \<and> update_vertex G md (st, cont) v
                = map_sum id (\<lambda>s. (s, True)) (relabel md v b st)"
    if out: "\<forall>c. map_of (communities st) v = Some c \<longrightarrow> c \<notin> set best"
      and many: "1 < length best"
      and counts: "\<forall>b\<in>set best. \<exists>n. com_to_numvertices st b = Some n \<and> n \<noteq> 0"
  proof -
    let ?dens = "\<lambda>b. md / real_of_int (the (com_to_numvertices st b))"
    let ?ds = "map ?dens best"
    let ?i = "argmin ?ds"
    from many have bne: "best \<noteq> []" by auto
    then have al: "?i < length ?ds \<and> (\<forall>x\<in>set ?ds. ?ds ! ?i \<le> x)"
      by (intro argmin_least) simp
    then have i: "?i < length best" by simp
    then have at: "?ds ! ?i = ?dens (best ! ?i)" by (rule nth_map)
    have dens: "com_densities md (com_to_numvertices st) best = Inr ?ds"
      by (rule com_densities_Inr[OF counts])
    from out many dens
    have "choose_com md st v (com_counter st v nbrs) = Inr (best ! ?i, True)"
      unfolding best cnt(1) by (rule choose_com_many)
    from update_vertex_changed[OF G ne this]
    have upd: "update_vertex G md (st, cont) v
                 = map_sum id (\<lambda>s. (s, True)) (relabel md v (best ! ?i) st)" .
    have low: "?dens (best ! ?i) \<le> ?dens b'" if "b' \<in> set best" for b'
    proof -
      from that have "?dens b' \<in> set ?ds" unfolding set_map by (rule imageI)
      with al have "?ds ! ?i \<le> ?dens b'" by blast
      then show ?thesis unfolding at .
    qed
    have big: "the (com_to_numvertices st b') \<le> the (com_to_numvertices st (best ! ?i))"
      if "0 < md" "\<forall>b'\<in>set best. 0 < the (com_to_numvertices st b')" "b' \<in> set best" for b'
    proof -
      from that(2,3) i have pos: "0 < the (com_to_numvertices st b')"
        "0 < the (com_to_numvertices st (best ! ?i))" by simp_all
      from that(1) pos(2,1) low[OF that(3)] show ?thesis
        by (rule density_le_count)
    qed
    from i have "best ! ?i \<in> set best" by simp
    with low big upd show ?thesis by blast
  qed
  have p4: "map_of (communities st') v = Some b" if "relabel md v b st = Inr st'" for b st'
    by (rule relabel_label[OF that])
  from p1 p2 p3a p3b p4 show ?thesis by blast
qed


theorem exact_update_rule_example:
  "map_of tie_graph 0 = Some [1, 2, 3]
   \<and> com_counter tie_state 0 [1, 2, 3] = [(0, 1), (1, 1)]
   \<and> best_communities [(0, 1), (1, 1)] = [0, 1]
   \<and> map_of (communities tie_state) 0 = None
   \<and> update_vertex tie_graph 1 (tie_state, False) 0 = Inr (tie_joined, True)
   \<and> map_of (communities tie_joined) 0 = Some 1
   \<and> com_counter tie_state 1 [0] = [(0, 1)]
   \<and> map_of (communities tie_state) 1 = Some 0
   \<and> update_vertex tie_graph 1 (tie_state, False) 1 = Inr (tie_state, False)"
proof -
  have g0: "map_of tie_graph 0 = Some [1, 2, 3]"
    and g1: "map_of tie_graph 1 = Some [0]"
    by (simp_all add: tie_graph_def)
  have c0: "[(0, 1), (1, 1)] = com_counter tie_state 0 [1, 2, 3]"
    and c1: "[(0, 1)] = com_counter tie_state 1 [0]"
    by (simp_all add: tie_state_def com_counter_def add_vote_def counter_update_def)
  have n0: "[(0 :: int, 1 :: real), (1, 1)] \<noteq> []" and n1: "[(0 :: int, 1 :: real)] \<noteq> []"
    by simp_all
  have b0: "[0, 1] = best_communities [(0, 1), (1, 1)]"
    and b1: "[0] = best_communities [(0, 1)]"
    by (simp_all add: best_communities_def)
  have l0: "map_of (communities tie_state) 0 = None"
    and l1: "map_of (communities tie_state) 1 = Some 0"
    by (simp_all add: tie_state_def)
  have r: "relabel 1 0 1 tie_state = Inr tie_joined"
    by (simp add: tie_state_def tie_joined_def relabel_def depart_def arrive_def fun_eq_iff)
  have u: "update_vertex tie_graph 1 (tie_state, False) 0 = Inr (tie_joined, True)"
    by (simp add: tie_graph_def tie_state_def tie_joined_def engine_defs fun_eq_iff)
  note t0 = exact_update_rule[OF g0 c0 n0 b0, of 1 False]
  from t0[THEN conjunct2, THEN conjunct2, THEN conjunct2, rule_format, OF r]
  have a: "map_of (communities tie_joined) 0 = Some 1" .
  note t1 = exact_update_rule[OF g1 c1 n1 b1, of 1 False]
  from t1[THEN conjunct2, THEN conjunct1, rule_format, of 0] l1
  have k: "update_vertex tie_graph 1 (tie_state, False) 1 = Inr (tie_state, False)"
    by simp
  show ?thesis
    by (intro conjI) (rule g0 c0[symmetric] b0[symmetric] l0 u a c1[symmetric] l1 k)+
qed

section \<open>The bookkeeping a restart starts from\<close>

lemma update_new_key:
  "map_of d v = None \<Longrightarrow> AList.update v c d = d @ [(v, c)]"
  by (induction d) (auto split: if_splits)

lemma members_of_update_new:
  "map_of d v = None \<Longrightarrow>
     members_of (AList.update v c d) x = members_of d x @ (if x = c then [v] else [])"
  by (simp add: update_new_key members_of_def)

lemma length_members_of_update_old:
  "distinct (map fst d) \<Longrightarrow> map_of d v = Some c \<Longrightarrow>
     length (members_of (AList.update v new d) x) + (if x = c then 1 else 0)
       = length (members_of d x) + (if x = new then 1 else 0)"
proof (induction d)
  case Nil
  then show ?case by simp
next
  case (Cons p d)
  obtain u l where p: "p = (u, l)" by (cases p)
  show ?case
  proof (cases "u = v")
    case True
    with Cons.prems p have "l = c" by simp
    with True p show ?thesis by (simp add: members_of_def)
  next
    case False
    with Cons.prems p have "distinct (map fst d)" "map_of d v = Some c" by simp_all
    from Cons.IH[OF this] have
      "length (members_of (AList.update v new d) x) + (if x = c then 1 else 0)
         = length (members_of d x) + (if x = new then 1 else 0)" .
    moreover have "members_of (AList.update v new (p # d)) x
        = (if l = x then [u] else []) @ members_of (AList.update v new d) x"
      "members_of (p # d) x = (if l = x then [u] else []) @ members_of d x"
      using False p by (simp_all add: members_of_def)
    ultimately show ?thesis by (simp del: AList.update.simps)
  qed
qed

lemma snd_set_update: "snd ` set (AList.update v c d) \<subseteq> insert c (snd ` set d)"
  by (induction d) auto

lemma booked_relabel:
  assumes b: "booked D st" and r: "relabel md v new st = Inr st'"
  shows "booked D st'"
proof -
  let ?d = "communities st"
  from b have dist: "distinct (map fst ?d)" and lab: "snd ` set ?d \<subseteq> D"
    and dc: "dom (com_to_numvertices st) = D" and dd: "dom (density st) = D"
    and cnt: "\<And>c n. com_to_numvertices st c = Some n \<Longrightarrow>
               1 \<le> n \<and> n = int (length (members_of ?d c))"
    by (auto simp: booked_def)
  show ?thesis
  proof (cases "map_of ?d v")
    case None
    then have dep: "depart md v st = Inr st" by (simp add: depart_def)
    with r obtain m where m: "com_to_numvertices st new = Some m" and m0: "m + 1 \<noteq> 0"
      and st': "st' = st\<lparr>communities := AList.update v new ?d,
                         com_to_numvertices := (com_to_numvertices st)(new \<mapsto> m + 1),
                         density := (density st)(new \<mapsto> md / real_of_int (m + 1))\<rparr>"
      by (auto simp: relabel_def arrive_def split: option.splits if_splits)
    from m dc have newD: "new \<in> D" by auto
    have "distinct (map fst (communities st'))"
      by (simp add: st' distinct_update dist)
    moreover have "snd ` set (communities st') \<subseteq> D"
      using snd_set_update[of v new ?d] lab newD by (auto simp: st')
    moreover have "dom (com_to_numvertices st') = D" "dom (density st') = D"
      using dc dd newD by (auto simp: st')
    moreover have "1 \<le> n \<and> n = int (length (members_of (communities st') c))"
      if "com_to_numvertices st' c = Some n" for c n
    proof (cases "c = new")
      case True
      with that have "n = m + 1" by (simp add: st')
      with cnt[OF m] True show ?thesis
        by (simp add: st' members_of_update_new[OF None])
    next
      case False
      with that have "com_to_numvertices st c = Some n" by (simp add: st')
      from cnt[OF this] False show ?thesis
        by (simp add: st' members_of_update_new[OF None])
    qed
    ultimately show ?thesis unfolding booked_def by blast
  next
    case (Some c)
    then have "c \<in> snd ` set ?d" by (force dest: map_of_SomeD)
    with lab dc obtain n where n: "com_to_numvertices st c = Some n" by blast
    from cnt[OF n] have n1: "1 \<le> n" and nm: "n = int (length (members_of ?d c))" by simp_all
    let ?st1 = "st\<lparr>com_to_numvertices := (com_to_numvertices st)(c \<mapsto> n - 1),
                    density := (density st)(c \<mapsto> md / real_of_int (n - 1))\<rparr>"
    from r Some n have n2: "n - 1 \<noteq> 0" and dep: "depart md v st = Inr ?st1"
      by (auto simp: relabel_def depart_def split: if_splits)
    with r obtain m where m: "com_to_numvertices ?st1 new = Some m" and m0: "m + 1 \<noteq> 0"
      and st': "st' = ?st1\<lparr>communities := AList.update v new ?d,
                         com_to_numvertices := (com_to_numvertices ?st1)(new \<mapsto> m + 1),
                         density := (density ?st1)(new \<mapsto> md / real_of_int (m + 1))\<rparr>"
      by (auto simp: relabel_def arrive_def split: option.splits if_splits)
    from m dc n have newD: "new \<in> D" by (auto split: if_splits)
    from n dc have cD: "c \<in> D" by auto
    note len = length_members_of_update_old[OF dist Some, of new]
    have "distinct (map fst (communities st'))"
      by (simp add: st' distinct_update dist)
    moreover have "snd ` set (communities st') \<subseteq> D"
      using snd_set_update[of v new ?d] lab newD by (auto simp: st')
    moreover have "dom (com_to_numvertices st') = D" "dom (density st') = D"
      using dc dd newD cD by (auto simp: st')
    moreover have "1 \<le> k \<and> k = int (length (members_of (communities st') x))"
      if "com_to_numvertices st' x = Some k" for x k
    proof -
      have comm: "communities st' = AList.update v new ?d" by (simp add: st')
      consider "x = new" "x = c" | "x = new" "x \<noteq> c" | "x \<noteq> new" "x = c" | "x \<noteq> new" "x \<noteq> c"
        by blast
      then show ?thesis
      proof cases
        case 1
        with m have "m = n - 1" by simp
        with that 1 have "k = n" by (simp add: st')
        with n1 nm len[of x] 1 show ?thesis by (simp add: comm)
      next
        case 2
        with m have mo: "com_to_numvertices st new = Some m" by simp
        from that 2 have "k = m + 1" by (simp add: st')
        with cnt[OF mo] len[of x] 2 show ?thesis by (simp add: comm)
      next
        case 3
        with that have "k = n - 1" by (simp add: st')
        with n1 n2 nm len[of x] 3 show ?thesis by (simp add: comm)
      next
        case 4
        with that have "com_to_numvertices st x = Some k" by (simp add: st')
        from cnt[OF this] len[of x] 4 show ?thesis by (simp add: comm)
      qed
    qed
    ultimately show ?thesis unfolding booked_def by blast
  qed
qed

lemma booked_engine_loop:
  assumes "booked D st" and "engine_loop G vertices md max_iter st n = Inr (st', n')"
  shows "booked D st'"
proof (rule engine_loop_invariant[where P = "booked D" and md = md and st = st and G = G
         and vertices = vertices and max_iter = max_iter and n = n and n' = n'])
  fix s v c s'
  assume "booked D s" "relabel md v c s = Inr s'"
  then show "booked D s'" by (rule booked_relabel)
next
  show "booked D st" by (rule assms(1))
next
  show "engine_loop G vertices md max_iter st n = Inr (st', n')" by (rule assms(2))
qed

lemma booked_labels:
  assumes "booked D st"
  shows "snd ` set (communities st) = D"
proof
  from assms show "snd ` set (communities st) \<subseteq> D" by (simp add: booked_def)
  show "D \<subseteq> snd ` set (communities st)"
  proof
    fix c assume "c \<in> D"
    with assms obtain n where "com_to_numvertices st c = Some n"
      unfolding booked_def by blast
    with assms have "1 \<le> int (length (members_of (communities st) c))"
      unfolding booked_def by blast
    then have "members_of (communities st) c \<noteq> []" by auto
    then show "c \<in> snd ` set (communities st)"
      by (auto simp: members_of_def filter_empty_conv)
  qed
qed

lemma booked_groups:
  assumes "booked D st" and "groups = map snd (invert_dict (communities st))"
  shows "length groups = card D"
    and "\<forall>i<length groups. \<forall>j<length groups. i \<noteq> j \<longrightarrow> set (groups ! i) \<inter> set (groups ! j) = {}"
proof -
  let ?d = "communities st"
  let ?ls = "first_seen (map snd ?d)"
  have eq: "groups = map (members_of ?d) ?ls"
    by (simp add: assms(2) invert_dict_eq o_def)
  from assms(1) have dist: "distinct (map fst ?d)" by (simp add: booked_def)
  show "length groups = card D"
    by (simp add: eq length_first_seen booked_labels[OF assms(1)])
  show "\<forall>i<length groups. \<forall>j<length groups. i \<noteq> j \<longrightarrow> set (groups ! i) \<inter> set (groups ! j) = {}"
  proof (intro allI impI)
    fix i j
    assume i: "i < length groups" and j: "j < length groups" and ne: "i \<noteq> j"
    from i j have i': "i < length ?ls" and j': "j < length ?ls" by (simp_all add: eq)
    with ne have "?ls ! i \<noteq> ?ls ! j"
      using distinct_first_seen[of "map snd ?d"] by (simp add: nth_eq_iff_index_eq)
    moreover have "groups ! i = members_of ?d (?ls ! i)" "groups ! j = members_of ?d (?ls ! j)"
      using i' j' by (simp_all add: eq)
    ultimately show "set (groups ! i) \<inter> set (groups ! j) = {}"
      by (auto simp: mem_members_of[OF dist])
  qed
qed

lemma draw_seeds_complete:
  "\<forall>i<length comms. \<forall>j<length comms. i \<noteq> j \<longrightarrow> set (comms ! i) \<inter> set (comms ! j) = {} \<Longrightarrow>
   \<not> fst (snd (draw_seeds rnd bad comms seeds community_idx removed_list n)) \<Longrightarrow>
   community_idx \<le> length comms \<Longrightarrow>
   map snd seeds = map int [0..<community_idx] \<Longrightarrow>
   distinct (map fst seeds) \<Longrightarrow>
   \<forall>v\<in>fst ` set seeds. \<exists>j<community_idx. v \<in> set (comms ! j) \<Longrightarrow>
   map snd (fst (draw_seeds rnd bad comms seeds community_idx removed_list n))
     = map int [0..<length comms]
   \<and> distinct (map fst (fst (draw_seeds rnd bad comms seeds community_idx removed_list n)))"
proof (induction rnd bad comms seeds community_idx removed_list n rule: draw_seeds.induct)
  case (1 rnd bad comms seeds community_idx removed_list n)
  note eq = draw_seeds.simps[of rnd bad comms seeds community_idx removed_list n]
  let ?cur = "candidates (comms ! community_idx) removed_list"
  let ?new_v = "choice rnd n ?cur"
  show ?case
  proof (cases "community_idx < length comms")
    case False
    then have res: "draw_seeds rnd bad comms seeds community_idx removed_list n = (seeds, False, n)"
      by (simp add: eq)
    from False "1.prems"(3) have "community_idx = length comms" by simp
    with "1.prems"(4,5) show ?thesis unfolding res by simp
  next
    case in_range: True
    have nonempty: "?cur \<noteq> []"
    proof
      assume "?cur = []"
      with in_range have "fst (snd (draw_seeds rnd bad comms seeds community_idx removed_list n))"
        by (simp add: eq)
      with "1.prems"(2) show False by simp
    qed
    then have "?new_v \<in> set ?cur" by (rule choice_mem)
    then have mem: "?new_v \<in> set (comms ! community_idx)" by (auto simp: candidates_def)
    show ?thesis
    proof (cases "?new_v \<in> set (map fst bad)")
      case True
      have same: "draw_seeds rnd bad comms seeds community_idx removed_list n
            = draw_seeds rnd bad comms seeds community_idx (removed_list @ [?new_v]) (Suc n)"
        using in_range nonempty True by (simp add: eq Let_def)
      from "1.IH"(1)[OF in_range refl nonempty refl True "1.prems"(1) _ "1.prems"(3,4,5,6)]
        "1.prems"(2)
      show ?thesis unfolding same by simp
    next
      case False
      let ?seeds' = "AList.update ?new_v (int community_idx) seeds"
      have same: "draw_seeds rnd bad comms seeds community_idx removed_list n
            = draw_seeds rnd bad comms ?seeds' (Suc community_idx) [] (Suc n)"
        using in_range nonempty False by (simp add: eq Let_def)
      have fresh: "?new_v \<notin> fst ` set seeds"
      proof
        assume "?new_v \<in> fst ` set seeds"
        with "1.prems"(6) obtain j where j: "j < community_idx" "?new_v \<in> set (comms ! j)"
          by blast
        with in_range "1.prems"(1) have "set (comms ! j) \<inter> set (comms ! community_idx) = {}"
          by simp
        with j(2) mem show False by blast
      qed
      then have none: "map_of seeds ?new_v = None"
        by (simp add: map_of_eq_None_iff)
      have upd: "?seeds' = seeds @ [(?new_v, int community_idx)]"
        by (rule update_new_key[OF none])
      have a: "Suc community_idx \<le> length comms" using in_range by simp
      have b: "map snd ?seeds' = map int [0..<Suc community_idx]"
        by (simp add: upd "1.prems"(4))
      have c: "distinct (map fst ?seeds')"
        using fresh "1.prems"(5) by (simp add: upd)
      have d: "\<forall>v\<in>fst ` set ?seeds'. \<exists>j<Suc community_idx. v \<in> set (comms ! j)"
        using "1.prems"(6) mem by (auto simp: upd less_Suc_eq)
      from "1.IH"(2)[OF in_range refl nonempty refl False "1.prems"(1) _ a b c d] "1.prems"(2)
      show ?thesis unfolding same by simp
    qed
  qed
qed

lemma dict_merge_distinct:
  "distinct (map fst (a @ zs)) \<Longrightarrow> dict_merge a zs = a @ zs"
proof (induction zs arbitrary: a)
  case Nil
  show ?case by (simp add: dict_merge_def)
next
  case (Cons z zs)
  obtain k v where z: "z = (k, v)" by (cases z)
  from Cons.prems z have "k \<notin> fst ` set a" by auto
  then have "map_of a k = None" by (simp add: map_of_eq_None_iff)
  then have u: "AList.update k v a = a @ [(k, v)]" by (rule update_new_key)
  from Cons.prems z have "distinct (map fst ((a @ [(k, v)]) @ zs))" by simp
  from Cons.IH[OF this] have "dict_merge (a @ [(k, v)]) zs = (a @ [(k, v)]) @ zs" .
  then show ?case by (simp add: dict_merge_def z u)
qed

lemma seeded_init:
  assumes "distinct shuffled"
  shows "seeded (min k (length shuffled)) (fluidc_init shuffled k)"
proof -
  let ?zs = "zip (take k shuffled) (map int [0..<k])"
  have keys: "map fst ?zs = take k shuffled"
    by (simp add: map_fst_zip_take min_def)
  with assms have "distinct (map fst ([] @ ?zs))" by simp
  from dict_merge_distinct[OF this] have seeds: "seed_set (fluidc_init shuffled k) = ?zs"
    by (simp add: init_fields)
  have vals: "map snd ?zs = map int [0..<min k (length shuffled)]"
    by (simp add: map_snd_zip_take take_map min.commute)
  from keys assms have "distinct (map fst ?zs)" by simp
  with vals show ?thesis
    by (simp add: seeded_def seeds) (simp add: fluidc_init_def Let_def)
qed

lemma fold_seed_map:
  "fold (\<lambda>(v, c) m. m(c \<mapsto> x)) xs m = (\<lambda>c. if c \<in> snd ` set xs then Some x else m c)"
proof (induction xs arbitrary: m)
  case Nil
  show ?case by simp
next
  case (Cons p xs)
  obtain v c where p: "p = (v, c)" by (cases p)
  have "fold (\<lambda>(v, c) m. m(c \<mapsto> x)) (p # xs) m = fold (\<lambda>(v, c) m. m(c \<mapsto> x)) xs (m(c \<mapsto> x))"
    unfolding p by simp
  also have "\<dots> = (\<lambda>c'. if c' \<in> snd ` set xs then Some x else (m(c \<mapsto> x)) c')"
    by (rule Cons.IH)
  also have "\<dots> = (\<lambda>c'. if c' \<in> snd ` set (p # xs) then Some x else m c')"
    unfolding p by (rule ext) simp
  finally show ?case .
qed

lemma dom_if_mem: "dom (\<lambda>c. if c \<in> S then Some x else None) = S"
  by (simp add: dom_def)

lemma init_seeds_maps:
  "com_to_numvertices (init_seeds st) =
     (\<lambda>c. if c \<in> snd ` set (seed_set st) then Some 1 else com_to_numvertices st c)"
  "density (init_seeds st) =
     (\<lambda>c. if c \<in> snd ` set (seed_set st) then Some max_density else density st c)"
  by (simp_all add: init_seeds_eq fold_seed_map)

lemma seeded_fresh:
  assumes "seeded K st"
  shows "com_to_numvertices (init_seeds st) =
           (\<lambda>c. if c \<in> snd ` set (seed_set st) then Some 1 else None)"
    and "density (init_seeds st) =
           (\<lambda>c. if c \<in> snd ` set (seed_set st) then Some max_density else None)"
proof -
  from assms have ids: "snd ` set (seed_set st) = int ` {0..<K}"
    unfolding seeded_def by (metis set_map set_upt)
  from assms have "dom (com_to_numvertices st) \<subseteq> snd ` set (seed_set st)"
    "dom (density st) \<subseteq> snd ` set (seed_set st)"
    unfolding ids by (simp_all add: seeded_def)
  then have "c \<notin> snd ` set (seed_set st) \<Longrightarrow> com_to_numvertices st c = None"
    "c \<notin> snd ` set (seed_set st) \<Longrightarrow> density st c = None" for c
    by blast+
  then show "com_to_numvertices (init_seeds st) =
           (\<lambda>c. if c \<in> snd ` set (seed_set st) then Some 1 else None)"
    and "density (init_seeds st) =
           (\<lambda>c. if c \<in> snd ` set (seed_set st) then Some max_density else None)"
    by (auto simp: init_seeds_maps fun_eq_iff)
qed

lemma one_member:
  assumes "distinct (map snd d)" and "c \<in> snd ` set d"
  shows "length (members_of d c) = 1"
proof -
  have "length (members_of d c) = length (filter (\<lambda>y. y = c) (map snd d))"
    by (simp add: members_of_def filter_map o_def)
  also have "\<dots> = card ({y. y = c} \<inter> set (map snd d))"
    by (rule distinct_length_filter[OF assms(1)])
  also have "{y. y = c} \<inter> set (map snd d) = {c}"
    using assms(2) by auto
  finally show ?thesis by simp
qed

lemma seeded_booked:
  assumes "seeded K st"
  shows "booked (int ` {0..<K}) (engine_input (init_seeds st))"
proof -
  let ?d = "seed_set st"
  from assms have vals: "map snd ?d = map int [0..<K]" and keys: "distinct (map fst ?d)"
    by (simp_all add: seeded_def)
  from vals have ids: "snd ` set ?d = int ` {0..<K}" by (metis set_map set_upt)
  from vals have dv: "distinct (map snd ?d)" by (simp add: distinct_map)
  note fresh = seeded_fresh[OF assms]
  have "dom (com_to_numvertices (init_seeds st)) = int ` {0..<K}"
    "dom (density (init_seeds st)) = int ` {0..<K}"
    unfolding fresh dom_if_mem by (rule ids)+
  moreover have "1 \<le> n \<and> n = int (length (members_of ?d c))"
    if "com_to_numvertices (init_seeds st) c = Some n" for c n
  proof -
    from that have "c \<in> snd ` set ?d" "n = 1"
      unfolding fresh by (auto split: if_splits)
    with one_member[OF dv] show ?thesis by simp
  qed
  ultimately show ?thesis
    unfolding booked_def engine_input_def using keys ids by simp
qed

lemma seed_set_new_seed_set:
  "seed_set (new_seed_set rnd comms st) = fst (draw_seeds rnd (bad_seed_set st) comms [] 0 [] (draws st))"
  by (simp add: new_seed_set_def split: prod.splits)

lemma seeded_restart:
  assumes s: "seeded K st" and r: "restart G max_iter rnd nmi st = Inr st'"
    and lt: "seed_init_num st' < 10"
  shows "seeded K st'"
proof -
  let ?D = "int ` {0..<K}"
  from restart_Inr[OF r] obtain comms est new_list where
    eng: "fluidc_modified G (sorted_vertices G) (engine_input (init_seeds st)) max_density max_iter
      = Inr (comms, est)"
    and st': "st' = after_engine rnd nmi comms est new_list (init_seeds st)"
    by blast
  from fluidc_modified_Inr[OF eng] obtain n where
    loop: "engine_loop G (sorted_vertices G) max_density max_iter (engine_input (init_seeds st)) 0
             = Inr (est, n)"
    and g: "comms = map snd (invert_dict (communities est))"
    by blast
  have b: "booked ?D est"
    by (rule booked_engine_loop[OF seeded_booked[OF s] loop])
  have "card ?D = K" by (simp add: card_image)
  with booked_groups[OF b g] have len: "length comms = K"
    and disj: "\<forall>i<length comms. \<forall>j<length comms. i \<noteq> j \<longrightarrow> set (comms ! i) \<inter> set (comms ! j) = {}"
    by simp_all
  define st4 where "st4 = (score_restart nmi new_list
      ((init_seeds st)\<lparr>density := density est, com_to_numvertices := com_to_numvertices est,
                        new_communities := Some comms\<rparr>))\<lparr>old_communities := Some new_list\<rparr>"
  have st'_eq: "st' = (new_seed_set rnd comms st4)\<lparr>iter := iter (new_seed_set rnd comms st4) + 1\<rparr>"
    by (simp add: st' after_engine_def Let_def st4_def)
  let ?draw = "draw_seeds rnd (bad_seed_set st4) comms [] 0 [] (draws st4)"
  have seeds: "seed_set st' = fst ?draw"
    by (simp add: st'_eq seed_set_new_seed_set)
  have "seed_init_num st' = (if fst (snd ?draw) then 10 else seed_init_num st4)"
    by (simp add: st'_eq seed_init_num_new_seed_set)
  with lt have ok: "\<not> fst (snd ?draw)" by (auto split: if_splits)
  have "map snd (fst ?draw) = map int [0..<length comms] \<and> distinct (map fst (fst ?draw))"
    by (rule draw_seeds_complete[OF disj ok]) simp_all
  then have a: "map snd (seed_set st') = map int [0..<K]" "distinct (map fst (seed_set st'))"
    by (simp_all add: seeds len)
  have "density st' = density est" "com_to_numvertices st' = com_to_numvertices est"
    by (simp_all add: st'_eq st4_def score_restart_def Let_def)
  with b have "dom (com_to_numvertices st') = ?D" "dom (density st') = ?D"
    by (simp_all add: booked_def)
  with a show ?thesis by (simp add: seeded_def)
qed

lemma seeded_reached:
  "reached G max_iter rnd nmi st0 st \<Longrightarrow> seeded K st0 \<Longrightarrow> seed_init_num st < 10 \<Longrightarrow>
     seeded K st"
proof (induction rule: reached.induct)
  case (reached_refl st)
  then show ?case by simp
next
  case (reached_step st0 st' st'')
  from reached_step.IH[OF reached_step.prems(1) reached_step.hyps(2)]
  have "seeded K st'" .
  from seeded_restart[OF this reached_step.hyps(4) reached_step.prems(2)] show ?case .
qed

text \<open>
  C9 (fresh bookkeeping per restart).  The dictionaries \<^verbatim>\<open>density\<close> and
  \<^verbatim>\<open>com_to_numvertices\<close> are made once, before the loop, and lines 160-162 only overwrite
  the entries of the seeded communities.  All the same, at every restart of a run what the
  engine receives holds exactly the communities of the current seed set, each with count
  \<open>1\<close> and density \<^verbatim>\<open>max_density\<close>: an engine run that returns keeps every community
  inhabited (a count that reaches \<open>0\<close> raises), so it returns as many groups as there were
  seeds, and the next seed set, unless the drawing is exhausted and ends the run, uses the
  same ids.
\<close>

theorem fresh_bookkeeping:
  assumes "distinct shuffled"
    and "reached G max_iter rnd nmi (fluidc_init shuffled k) st"
    and "seed_init_num st < 10"
  shows "engine_input (init_seeds st) =
           \<lparr>density = (\<lambda>c. if c \<in> snd ` set (seed_set st) then Some max_density else None),
            com_to_numvertices = (\<lambda>c. if c \<in> snd ` set (seed_set st) then Some 1 else None),
            communities = seed_set st\<rparr>"
proof -
  from seeded_init[OF assms(1)]
  have "seeded (min k (length shuffled)) (fluidc_init shuffled k)" .
  from seeded_reached[OF assms(2) this assms(3)]
  have "seeded (min k (length shuffled)) st" .
  from seeded_fresh[OF this] show ?thesis
    by (simp add: engine_input_def)
qed

theorem fresh_bookkeeping_witness:
  "distinct [0, 3, 1, 2, 4, 5 :: nat]
   \<and> reached ring6 100 second_choice zero_scorer (fluidc_init [0, 3, 1, 2, 4, 5] 2) ring6_second
   \<and> seed_init_num ring6_second < 10
   \<and> com_to_numvertices ring6_second = [0 \<mapsto> 3, 1 \<mapsto> 3]
   \<and> seed_set ring6_second = [(5, 0), (4, 1)]
   \<and> engine_input (init_seeds ring6_second) =
        \<lparr>density = [0 \<mapsto> 1, 1 \<mapsto> 1], com_to_numvertices = [0 \<mapsto> 1, 1 \<mapsto> 1],
         communities = [(5, 0), (4, 1)]\<rparr>"
proof -
  have a: "distinct [0, 3, 1, 2, 4, 5 :: nat]" by simp
  have d: "seed_init_num ring6_start < 10" "iter ring6_start < 100"
    "seed_init_num ring6_first < 10" "iter ring6_first < 100"
    by (simp_all add: ring6_start_def ring6_first_def init_fields)
  have r: "reached ring6 100 second_choice zero_scorer (fluidc_init [0, 3, 1, 2, 4, 5] 2) ring6_second"
    unfolding ring6_start_def[symmetric]
    by (rule reached_step[OF reached_step[OF reached_refl d(1,2) ring6_restart_1] d(3,4)
          ring6_restart_2])
  have l: "seed_init_num ring6_second < 10"
    and c: "com_to_numvertices ring6_second = [0 \<mapsto> 3, 1 \<mapsto> 3]"
    and s: "seed_set ring6_second = [(5, 0), (4, 1)]"
    by (simp_all add: ring6_second_def)
  have e: "engine_input (init_seeds ring6_second) =
        \<lparr>density = [0 \<mapsto> 1, 1 \<mapsto> 1], com_to_numvertices = [0 \<mapsto> 1, 1 \<mapsto> 1],
         communities = [(5, 0), (4, 1)]\<rparr>"
    unfolding fresh_bookkeeping[OF a r l] s
    by (auto simp: max_density_def fun_eq_iff)
  show ?thesis
    by (intro conjI) (rule a r l c s e)+
qed

end
